theory Spec2Isabelle
  imports Main "HOL-Library.Sublist"
begin

section \<open>JavaScript values\<close>

text \<open>
  The plugin of \<^verbatim>\<open>src/scripts/rollup/components.js\<close> works on parsed JSON and on the
  records its fetchers build. A value is one of the JavaScript kinds that can occur there;
  \<open>Undef\<close> is \<^verbatim>\<open>undefined\<close>. An object is the list of its own enumerable
  properties in insertion order (the order of \<^verbatim>\<open>Object.entries\<close>), with pairwise
  distinct keys; the reordering of integer-like keys is not modelled. An object has the
  default prototype unless it is the result of \<^verbatim>\<open>merge\<close>, whose prototype is given
  separately (see \<open>merge_proto\<close>). The plugin does no arithmetic, so a number is only
  carried along: \<open>Num n\<close> is the integer \<open>n\<close>, meant for magnitudes below \<open>2^53\<close>,
  where every integer is a number of JavaScript and prints with all its digits;
  \<open>NonFinite\<close> are the three numbers that are not finite. Fractions are not modelled.
  Strings are lists of characters.
\<close>

datatype nonfinite = NaN | PosInfinity | NegInfinity

datatype js = Undef | Null | Bool bool | Num int | NonFinite nonfinite | Str string
  | Arr "js list" | Obj "(string \<times> js) list"

datatype error = TypeError | SyntaxError | Failure string

type_synonym fields = "(string \<times> js) list"

fun truthy :: "js \<Rightarrow> bool" where
  "truthy Undef = False"
| "truthy Null = False"
| "truthy (Bool b) = b"
| "truthy (Num n) = (n \<noteq> 0)"
| "truthy (NonFinite n) = (n \<noteq> NaN)"
| "truthy (Str s) = (s \<noteq> [])"
| "truthy (Arr xs) = True"
| "truthy (Obj fs) = True"

text \<open>\<^verbatim>\<open>a || b\<close> on values.\<close>

definition js_or :: "js \<Rightarrow> js \<Rightarrow> js" where
  "js_or a b = (if truthy a then a else b)"

fun is_Arr :: "js \<Rightarrow> bool" where
  "is_Arr (Arr xs) = True"
| "is_Arr v = False"

fun elems :: "js \<Rightarrow> js list" where
  "elems (Arr xs) = xs"
| "elems v = []"

subsection \<open>Strings\<close>

text \<open>\<^verbatim>\<open>s.includes(pat)\<close>: \<open>pat\<close> occurs in \<open>s\<close> as a contiguous substring.\<close>

fun includes_str :: "string \<Rightarrow> string \<Rightarrow> bool" where
  "includes_str [] pat = (pat = [])"
| "includes_str (c # cs) pat = (prefix pat (c # cs) \<or> includes_str cs pat)"

text \<open>\<^verbatim>\<open>s.startsWith(p)\<close> is \<^const>\<open>prefix\<close> \<open>p s\<close>, \<^verbatim>\<open>s.endsWith(p)\<close> is
  \<^const>\<open>suffix\<close> \<open>p s\<close>.\<close>

text \<open>\<^verbatim>\<open>s.replace(c, tok)\<close> with a one-character string pattern: only the first
  occurrence is replaced.\<close>

fun replace_first :: "char \<Rightarrow> string \<Rightarrow> string \<Rightarrow> string" where
  "replace_first c tok [] = []"
| "replace_first c tok (x # xs) = (if x = c then tok @ xs else x # replace_first c tok xs)"

text \<open>Decimal numerals, for \<^verbatim>\<open>String(n)\<close> and for the index keys of arrays.\<close>

fun dec_nat :: "nat \<Rightarrow> string" where
  "dec_nat n = (if n < 10 then [char_of (48 + n)] else dec_nat (n div 10) @ [char_of (48 + n mod 10)])"

declare dec_nat.simps [simp del]

definition dec_int :: "int \<Rightarrow> string" where
  "dec_int i = (if i < 0 then CHR ''-'' # dec_nat (nat (- i)) else dec_nat (nat i))"

fun join_comma :: "string list \<Rightarrow> string" where
  "join_comma [] = []"
| "join_comma [s] = s"
| "join_comma (s # t # ss) = s @ '','' @ join_comma (t # ss)"

text \<open>\<^verbatim>\<open>String(v)\<close>, as a template literal \<^verbatim>\<open>`${v}`\<close> computes it. An array joins its
  elements with commas, \<^verbatim>\<open>null\<close> and \<^verbatim>\<open>undefined\<close> elements printing as nothing. A
  number prints with all its digits below \<open>10^21\<close> only (from there on JavaScript
  uses the exponent form), which covers the integers the model is meant for.\<close>

fun nonfinite_string :: "nonfinite \<Rightarrow> string" where
  "nonfinite_string NaN = ''NaN''"
| "nonfinite_string PosInfinity = ''Infinity''"
| "nonfinite_string NegInfinity = ''-Infinity''"

fun to_string :: "js \<Rightarrow> string" where
  "to_string Undef = ''undefined''"
| "to_string Null = ''null''"
| "to_string (Bool b) = (if b then ''true'' else ''false'')"
| "to_string (Num n) = dec_int n"
| "to_string (NonFinite n) = nonfinite_string n"
| "to_string (Str s) = s"
| "to_string (Arr xs) =
     join_comma (map (\<lambda>x. if x = Undef \<or> x = Null then [] else to_string x) xs)"
| "to_string (Obj fs) = ''[object Object]''"

subsection \<open>Objects\<close>

text \<open>The own enumerable properties of a value: the fields of an object, the indexed
  elements of an array, the indexed characters of a string, nothing for the rest.\<close>

fun own_entries :: "js \<Rightarrow> fields" where
  "own_entries (Obj fs) = fs"
| "own_entries (Arr xs) = zip (map dec_nat [0..<length xs]) xs"
| "own_entries (Str s) = zip (map dec_nat [0..<length s]) (map (\<lambda>c. Str [c]) s)"
| "own_entries v = []"

text \<open>\<^verbatim>\<open>Object.entries(v)\<close> and \<^verbatim>\<open>Object.keys(v)\<close> throw on \<^verbatim>\<open>null\<close> and
  \<^verbatim>\<open>undefined\<close>.\<close>

definition Object_entries :: "js \<Rightarrow> error + fields" where
  "Object_entries v = (if v = Undef \<or> v = Null then Inl TypeError else Inr (own_entries v))"

definition Object_keys :: "js \<Rightarrow> error + string list" where
  "Object_keys v = (if v = Undef \<or> v = Null then Inl TypeError else Inr (map fst (own_entries v)))"

text \<open>\<^verbatim>\<open>fs[k]\<close> on the fields of an object: \<^verbatim>\<open>undefined\<close> when the key is absent.\<close>

definition get_prop :: "fields \<Rightarrow> string \<Rightarrow> js" where
  "get_prop fs k = (case map_of fs k of None \<Rightarrow> Undef | Some v \<Rightarrow> v)"

text \<open>\<^verbatim>\<open>v.k\<close> on any value, for the property names the plugin reads (none of them a
  built-in such as \<^verbatim>\<open>length\<close>): a TypeError on \<^verbatim>\<open>null\<close> and \<^verbatim>\<open>undefined\<close>.\<close>

definition read_prop :: "js \<Rightarrow> string \<Rightarrow> error + js" where
  "read_prop v k = (if v = Undef \<or> v = Null then Inl TypeError else Inr (get_prop (own_entries v) k))"

text \<open>\<^verbatim>\<open>fs[k] = v\<close>: an existing key keeps its place, a new key is appended.\<close>

fun set_prop :: "(string \<times> 'a) list \<Rightarrow> string \<Rightarrow> 'a \<Rightarrow> (string \<times> 'a) list" where
  "set_prop [] k v = [(k, v)]"
| "set_prop ((k', v') # fs) k v = (if k' = k then (k, v) # fs else (k', v') # set_prop fs k v)"

text \<open>\<^verbatim>\<open>Object.keys(fs).includes(k)\<close>.\<close>

definition has_key :: "(string \<times> 'a) list \<Rightarrow> string \<Rightarrow> bool" where
  "has_key fs k = (k \<in> set (map fst fs))"

section \<open>The merge engine\<close>

text \<open>\<^verbatim>\<open>[...v]\<close>: the elements of an array, the characters of a string, a TypeError for
  a value that is not iterable.\<close>

fun spread :: "js \<Rightarrow> error + js list" where
  "spread (Arr xs) = Inr xs"
| "spread (Str s) = Inr (map (\<lambda>c. Str [c]) s)"
| "spread v = Inl TypeError"

text \<open>\<^verbatim>\<open>tag.includes('svelte')\<close>: the substring test on a string, membership on an
  array, a TypeError on anything else (no such method).\<close>

fun includes_svelte :: "js \<Rightarrow> error + bool" where
  "includes_svelte (Str s) = Inr (includes_str s ''svelte'')"
| "includes_svelte (Arr xs) = Inr (Str ''svelte'' \<in> set xs)"
| "includes_svelte v = Inl TypeError"

text \<open>\<^verbatim>\<open>tags.filter(tag => !tag.includes('svelte'))\<close>; the first tag on which the callback
  throws ends the call.\<close>

fun filter_tags :: "js list \<Rightarrow> error + js list" where
  "filter_tags [] = Inr []"
| "filter_tags (t # ts) =
     (case includes_svelte t of
        Inl e \<Rightarrow> Inl e
      | Inr b \<Rightarrow> (case filter_tags ts of
                   Inl e \<Rightarrow> Inl e
                 | Inr r \<Rightarrow> Inr (if b then r else t # r)))"

text \<open>
  \<^verbatim>\<open>Object.assign({}, base)\<close> and \<^verbatim>\<open>newData[key] = value\<close> assign through the
  prototype chain. For every key but \<^verbatim>\<open>__proto__\<close> this creates or updates an own
  property. For \<^verbatim>\<open>__proto__\<close> on an object without such an own property, the assignment
  reaches the accessor of the default prototype, as long as that is still inherited: the
  setter makes an object, an array or \<^verbatim>\<open>null\<close> the new prototype and ignores every other
  value, and no own property appears. The accessor is no longer inherited when the
  prototype is \<^verbatim>\<open>null\<close>, or is an object that has an own property \<^verbatim>\<open>__proto__\<close> (which
  \<^verbatim>\<open>JSON.parse\<close> creates as a plain property); then the assignment creates an own
  property like any other. The prototype of the object under construction is carried
  along with its own properties.
\<close>

datatype proto = ObjectPrototype | NullPrototype | Proto js

fun setter_reachable :: "proto \<Rightarrow> bool" where
  "setter_reachable ObjectPrototype = True"
| "setter_reachable NullPrototype = False"
| "setter_reachable (Proto (Obj fs)) = (\<not> has_key fs ''__proto__'')"
| "setter_reachable (Proto v) = True"

fun set_prototype :: "proto \<Rightarrow> js \<Rightarrow> proto" where
  "set_prototype p Null = NullPrototype"
| "set_prototype p (Obj fs) = Proto (Obj fs)"
| "set_prototype p (Arr xs) = Proto (Arr xs)"
| "set_prototype p v = p"

text \<open>\<^verbatim>\<open>obj[k] = v\<close> on an object given by its prototype and its own properties.\<close>

definition assign :: "proto \<times> fields \<Rightarrow> string \<Rightarrow> js \<Rightarrow> proto \<times> fields" where
  "assign obj k v =
     (case obj of
        (p, fs) \<Rightarrow>
          if k = ''__proto__'' \<and> \<not> has_key fs k \<and> setter_reachable p
          then (set_prototype p v, fs)
          else (p, set_prop fs k v))"

text \<open>
  \<^verbatim>\<open>Object.assign({}, base)\<close>: every own property of \<open>base\<close> (none for \<^verbatim>\<open>null\<close> and
  \<^verbatim>\<open>undefined\<close>) is assigned to a fresh object. The keys of \<open>base\<close> being distinct, the
  own properties of the copy are those of \<open>base\<close> without \<^verbatim>\<open>__proto__\<close>, whose value
  went to the setter.
\<close>

definition Object_assign :: "js \<Rightarrow> proto \<times> fields" where
  "Object_assign base =
     (case map_of (own_entries base) ''__proto__'' of
        None \<Rightarrow> ObjectPrototype
      | Some v \<Rightarrow> set_prototype ObjectPrototype v,
      filter (\<lambda>kv. fst kv \<noteq> ''__proto__'') (own_entries base))"

text \<open>
  One call of the \<^verbatim>\<open>forEach\<close> callback of \<^verbatim>\<open>merge\<close> on the entry \<open>(key, value)\<close>.
  The source's skip test also has the disjunct \<^verbatim>\<open>value === []\<close>, which compares
  an object reference with a fresh array and is false for every value; it has no
  counterpart below. In the branch of the tags, \<^verbatim>\<open>tags\<close> is an own property of
  \<open>newData\<close>, so the prototype plays no part in reading or writing it.
\<close>

definition merge_step :: "proto \<times> fields \<Rightarrow> string \<Rightarrow> js \<Rightarrow> error + proto \<times> fields" where
  "merge_step newData key val =
     (if val = Undef \<or> val = Null \<or> val = Str []
      then Inr newData
      else if \<not> has_key (snd newData) key
      then Inr (assign newData key val)
      else if key = ''tags'' \<and> is_Arr val
      then (case spread (js_or (get_prop (snd newData) ''tags'') (Arr [])) of
              Inl e \<Rightarrow> Inl e
            | Inr old \<Rightarrow> (case filter_tags (old @ elems val) of
                           Inl e \<Rightarrow> Inl e
                         | Inr ts \<Rightarrow>
                             Inr (fst newData, set_prop (snd newData) ''tags'' (Arr ts))))
      else Inr newData)"

fun merge_entries :: "proto \<times> fields \<Rightarrow> fields \<Rightarrow> error + proto \<times> fields" where
  "merge_entries newData [] = Inr newData"
| "merge_entries newData ((k, v) # es) =
     (case merge_step newData k v of
        Inl e \<Rightarrow> Inl e
      | Inr nd \<Rightarrow> merge_entries nd es)"

text \<open>
  \<^verbatim>\<open>merge(base, additional)\<close>. \<open>merge_object\<close> gives the prototype and the own
  properties of the object returned, \<open>merge\<close> the object as a value (its own properties)
  and \<open>merge_proto\<close> its prototype.
\<close>

definition merge_object :: "js \<Rightarrow> js \<Rightarrow> error + proto \<times> fields" where
  "merge_object base additional =
     (case Object_entries additional of
        Inl e \<Rightarrow> Inl e
      | Inr es \<Rightarrow> merge_entries (Object_assign base) es)"

definition merge :: "js \<Rightarrow> js \<Rightarrow> error + js" where
  "merge base additional =
     (case merge_object base additional of
        Inl e \<Rightarrow> Inl e
      | Inr nd \<Rightarrow> Inr (Obj (snd nd)))"

definition merge_proto :: "js \<Rightarrow> js \<Rightarrow> proto" where
  "merge_proto base additional =
     (case merge_object base additional of
        Inl e \<Rightarrow> ObjectPrototype
      | Inr nd \<Rightarrow> fst nd)"

section \<open>JSON serialisation\<close>

text \<open>
  A JSON text is represented by the document it denotes, a value without
  \<^verbatim>\<open>undefined\<close>. \<^verbatim>\<open>JSON.stringify(v)\<close> is \<^verbatim>\<open>undefined\<close> (here \<open>None\<close>) for
  \<^verbatim>\<open>undefined\<close>; inside an array \<^verbatim>\<open>undefined\<close> is written as \<^verbatim>\<open>null\<close>, inside an
  object a property whose value is \<^verbatim>\<open>undefined\<close> is left out; a number that is not
  finite is written as \<^verbatim>\<open>null\<close>. \<^verbatim>\<open>JSON.parse\<close> of a text gives its document back,
  and throws a SyntaxError on \<^verbatim>\<open>undefined\<close>.
\<close>

fun json_doc :: "js \<Rightarrow> js" where
  "json_doc (Arr xs) = Arr (map (\<lambda>x. if x = Undef then Null else json_doc x) xs)"
| "json_doc (Obj fs) =
     Obj (map (\<lambda>kv. (fst kv, json_doc (snd kv))) (filter (\<lambda>kv. snd kv \<noteq> Undef) fs))"
| "json_doc (NonFinite n) = Null"
| "json_doc v = v"

definition JSON_stringify :: "js \<Rightarrow> js option" where
  "JSON_stringify v = (if v = Undef then None else Some (json_doc v))"

definition JSON_parse :: "js option \<Rightarrow> error + js" where
  "JSON_parse t = (case t of None \<Rightarrow> Inl SyntaxError | Some d \<Rightarrow> Inr d)"

section \<open>State, effects and the external services\<close>

text \<open>
  A cache entry is the object \<^verbatim>\<open>{data: JSON.stringify(value), key: cacheKey}\<close> that
  \<^verbatim>\<open>getData\<close> stores. The state of a run is the content of the disk cache, the writes
  that have been issued and have not completed yet, and the trace of the effects performed
  so far: cache reads, cache writes issued, rejections of a write that nobody handles,
  calls of the remote services, progress lines and build warnings.
\<close>

record entry =
  data :: "js option"
  key :: string

datatype event =
    CacheGet string
  | CacheSet string
  | UnhandledRejection string
  | Remote string string
  | Progress nat nat
  | Warn string string nat

record state =
  store :: "string \<Rightarrow> entry option"
  pending :: "(string \<times> entry) list"
  trace :: "event list"

text \<open>
  The result of calling a promise-returning function of a library: it throws before it
  returns a promise, or its promise is rejected, or its promise is fulfilled.
\<close>

datatype 'a outcome = Throws | Rejects | Resolves 'a

text \<open>
  The collaborators that are not code of the plugin are parameters of the model: the
  registry client \<^verbatim>\<open>packageJson\<close>, the hosting clients \<^verbatim>\<open>github.repos.get\<close> and
  \<^verbatim>\<open>gitlab.show\<close>, the include/exclude \<^verbatim>\<open>filter\<close>, and \<^verbatim>\<open>JSON.parse\<close> on the catalog
  text, which gives the parsed array or the message of the error it throws.

  Modelled from the spec: the persistent cache \<^verbatim>\<open>DiskCache\<close> of the library
  \<^verbatim>\<open>@lsdsoftware/simple-cache\<close> is not part of the sources. Its contract is
  \<^verbatim>\<open>get(key)\<close> giving a value or not-found and \<^verbatim>\<open>set(key, value)\<close>, both asynchronous;
  a fault of either is a rejected promise. \<open>cache_get_fault\<close> and \<open>cache_set_fault\<close> say
  for which keys the operation faults. A write is issued by the call of \<^verbatim>\<open>set\<close> and
  completes later; a read sees the writes that have completed. When a write completes is
  not decided by the plugin, which never awaits one: \<open>settle_writes\<close> is the completion
  of all pending writes, and \<open>writes_complete_after i\<close> says whether it has happened
  when batch \<open>i\<close> of a run has settled. Entries do not expire during a run.
\<close>

record env =
  packageJson :: "js \<Rightarrow> js outcome"
  github_repos_get :: "string \<Rightarrow> string \<Rightarrow> js outcome"
  gitlab_show :: "string \<Rightarrow> js outcome"
  cache_get_fault :: "string \<Rightarrow> bool"
  cache_set_fault :: "string \<Rightarrow> bool"
  writes_complete_after :: "nat \<Rightarrow> bool"
  parse_catalog :: "string \<Rightarrow> string + js list"
  filter_id :: "string \<Rightarrow> bool"

type_synonym 'a task = "state \<Rightarrow> (error + 'a) \<times> state"

definition emit :: "event \<Rightarrow> state \<Rightarrow> state" where
  "emit e s = s\<lparr>trace := trace s @ [e]\<rparr>"

text \<open>Sequencing of two asynchronous steps: a rejection of the first ends the task.\<close>

definition then_do :: "'a task \<Rightarrow> ('a \<Rightarrow> 'b task) \<Rightarrow> 'b task" where
  "then_do m f s = (case m s of (Inl e, s') \<Rightarrow> (Inl e, s') | (Inr a, s') \<Rightarrow> f a s')"

definition lift_err :: "error + 'a \<Rightarrow> 'a task" where
  "lift_err r s = (r, s)"

text \<open>\<^verbatim>\<open>await cache.get(k)\<close>: a fault, or the stored entry (\<open>None\<close> is \<^verbatim>\<open>undefined\<close>).\<close>

definition cache_get :: "env \<Rightarrow> string \<Rightarrow> state \<Rightarrow> (error + entry option) \<times> state" where
  "cache_get E k s =
     (if cache_get_fault E k then (Inl (Failure ''cache read''), emit (CacheGet k) s)
      else (Inr (store s k), emit (CacheGet k) s))"

text \<open>\<^verbatim>\<open>cache.set(k, e)\<close>, not awaited: the write is issued and its promise is dropped,
  so the caller goes on at once and never sees how the write ends.\<close>

definition cache_set :: "string \<Rightarrow> entry \<Rightarrow> state \<Rightarrow> state" where
  "cache_set k e s = emit (CacheSet k) (s\<lparr>pending := pending s @ [(k, e)]\<rparr>)"

text \<open>The completion of writes, in the order they were issued: a write that faults leaves
  the store as it is and its dropped promise is rejected with no handler; a write that
  does not fault replaces the entry of its key.\<close>

fun complete_writes :: "env \<Rightarrow> (string \<times> entry) list \<Rightarrow> state \<Rightarrow> state" where
  "complete_writes E [] s = s"
| "complete_writes E ((k, e) # ws) s =
     complete_writes E ws
       (if cache_set_fault E k then emit (UnhandledRejection k) s
        else s\<lparr>store := (store s)(k \<mapsto> e)\<rparr>)"

definition settle_writes :: "env \<Rightarrow> state \<Rightarrow> state" where
  "settle_writes E s = complete_writes E (pending s) (s\<lparr>pending := []\<rparr>)"

text \<open>The number of remote calls made so far.\<close>

fun is_remote :: "event \<Rightarrow> bool" where
  "is_remote (Remote platform ident) = True"
| "is_remote e = False"

definition remote_calls :: "state \<Rightarrow> nat" where
  "remote_calls s = length (filter is_remote (trace s))"

section \<open>The cache-backed fetch wrapper\<close>

definition normalize_key :: "string \<Rightarrow> string" where
  "normalize_key cacheKey =
     replace_first CHR ''/'' ''--SLASH--'' (replace_first CHR ''@'' ''--AT--'' cacheKey)"

text \<open>The \<^verbatim>\<open>try\<close> block of \<^verbatim>\<open>getData\<close>: the value to return from the cache, if any. A
  read fault, an absent entry and a SyntaxError of \<^verbatim>\<open>JSON.parse\<close> all fall through.\<close>

definition cached_value :: "error + entry option \<Rightarrow> js option" where
  "cached_value got =
     (case got of
        Inl e \<Rightarrow> None
      | Inr None \<Rightarrow> None
      | Inr (Some cacheData) \<Rightarrow>
          (case JSON_parse (data cacheData) of Inl e \<Rightarrow> None | Inr v \<Rightarrow> Some v))"

definition getData :: "env \<Rightarrow> string \<Rightarrow> js task \<Rightarrow> js task" where
  "getData E cacheKey valueGetter s =
     (let k = normalize_key cacheKey;
          (got, s1) = cache_get E k s
      in case cached_value got of
           Some v \<Rightarrow> (Inr v, s1)
         | None \<Rightarrow>
             (case valueGetter s1 of
                (Inl e, s2) \<Rightarrow> (Inl e, s2)
              | (Inr generatedValue, s2) \<Rightarrow>
                  (Inr generatedValue,
                   cache_set k \<lparr>data = JSON_stringify generatedValue, key = k\<rparr> s2)))"

section \<open>The registry fetcher\<close>

definition npm_empty :: js where
  "npm_empty = Obj [(''description'', Null), (''tags'', Arr []), (''repo'', Null),
                    (''url'', Null), (''title'', Null)]"

text \<open>\<^verbatim>\<open>.replace(/^git\+/, '')\<close> and \<^verbatim>\<open>.replace(/\.git$/, '')\<close>.\<close>

definition strip_git_plus :: "string \<Rightarrow> string" where
  "strip_git_plus s = (if prefix ''git+'' s then drop 4 s else s)"

definition strip_dot_git :: "string \<Rightarrow> string" where
  "strip_dot_git s = (if suffix ''.git'' s then take (length s - 4) s else s)"

text \<open>
  The body of the \<^verbatim>\<open>try\<close> block after the registry has answered with \<open>npmInfo\<close>.
  \<^verbatim>\<open>npmInfo.repository && npmInfo.repository.url || ''\<close> must be a string for
  \<^verbatim>\<open>.replace\<close> to exist; reading a property of \<^verbatim>\<open>null\<close> or \<^verbatim>\<open>undefined\<close> and calling
  a missing method are TypeErrors.
\<close>

definition npm_record :: "js \<Rightarrow> error + js" where
  "npm_record npmInfo =
     (if npmInfo = Undef \<or> npmInfo = Null then Inl TypeError
      else
        let info = own_entries npmInfo;
            repository = get_prop info ''repository'';
            u = (if truthy repository then get_prop (own_entries repository) ''url''
                 else repository)
        in case js_or u (Str []) of
             Str t \<Rightarrow>
               (let repo = strip_dot_git (strip_git_plus t)
                in Inr (Obj [(''description'', get_prop info ''description''),
                             (''tags'', get_prop info ''keywords''),
                             (''url'', get_prop info ''homepage''),
                             (''repo'', if repo = [] then Null else Str repo),
                             (''title'', get_prop info ''name'')]))
           | _ \<Rightarrow> Inl TypeError)"

definition npm_producer :: "env \<Rightarrow> js \<Rightarrow> js task" where
  "npm_producer E packageName s =
     (Inr (case packageJson E packageName of
             Resolves npmInfo \<Rightarrow>
               (case npm_record npmInfo of Inl e \<Rightarrow> npm_empty | Inr r \<Rightarrow> r)
           | _ \<Rightarrow> npm_empty),
      emit (Remote ''npm'' (to_string packageName)) s)"

definition getNpmInfo :: "env \<Rightarrow> js \<Rightarrow> js task" where
  "getNpmInfo E packageName =
     getData E (''npm-'' @ to_string packageName) (npm_producer E packageName)"

section \<open>The hosting fetchers\<close>

definition strip_prefix :: "string \<Rightarrow> string \<Rightarrow> string option" where
  "strip_prefix p s = (if prefix p s then Some (drop (length p) s) else None)"

text \<open>\<^verbatim>\<open>([^\/]+)\/([^\/]+)\<close> at the start of a string: two non-empty segments without a
  slash, separated by one slash. Each group is greedy, and the slash that must follow the
  first group leaves it no other choice than the longest run.\<close>

definition two_segments :: "string \<Rightarrow> (string \<times> string) option" where
  "two_segments p =
     (let owner = takeWhile (\<lambda>c. c \<noteq> CHR ''/'') p;
          rest = dropWhile (\<lambda>c. c \<noteq> CHR ''/'') p
      in if owner = [] \<or> rest = [] then None
         else let repo = takeWhile (\<lambda>c. c \<noteq> CHR ''/'') (tl rest)
              in if repo = [] then None else Some (owner, repo))"

fun first_some :: "'a option list \<Rightarrow> 'a option" where
  "first_some [] = None"
| "first_some (None # xs) = first_some xs"
| "first_some (Some x # xs) = Some x"

text \<open>
  \<^verbatim>\<open>/^(?:https|ssh|git):\/\/(?:git@)?github\.com\/([^\/]+)\/([^\/]+)/.exec(url)\<close>: the two
  groups, or \<open>None\<close> for \<^verbatim>\<open>null\<close>. At most one scheme matches, and after \<^verbatim>\<open>git@\<close>
  has matched the alternative without it cannot, so no backtracking is lost.
\<close>

definition github_exec :: "string \<Rightarrow> (string \<times> string) option" where
  "github_exec url =
     (case first_some (map (\<lambda>scheme. strip_prefix (scheme @ ''://'') url)
                          [''https'', ''ssh'', ''git'']) of
        None \<Rightarrow> None
      | Some r \<Rightarrow>
          (let r' = (case strip_prefix ''git@'' r of Some x \<Rightarrow> x | None \<Rightarrow> r)
           in case strip_prefix ''github.com/'' r' of
                None \<Rightarrow> None
              | Some p \<Rightarrow> two_segments p))"

definition gitlab_exec :: "string \<Rightarrow> (string \<times> string) option" where
  "gitlab_exec url =
     (case strip_prefix ''https://gitlab.com/'' url of
        None \<Rightarrow> None
      | Some p \<Rightarrow> two_segments p)"

text \<open>The address forms the guards of the two fetchers let through.\<close>

definition github_address :: "string \<Rightarrow> bool" where
  "github_address url =
     (prefix ''https://github.com/'' url \<or> prefix ''ssh://git@github.com/'' url
      \<or> prefix ''git://github.com/'' url)"

definition gitlab_address :: "string \<Rightarrow> bool" where
  "gitlab_address url = prefix ''https://gitlab.com/'' url"

definition github_empty :: js where
  "github_empty = Obj [(''stars'', Null), (''description'', Null), (''title'', Null),
                       (''url'', Null)]"

definition github_fallback :: js where
  "github_fallback = Obj [(''data'', Obj [(''stargazers_count'', Null), (''description'', Null),
                                         (''name'', Null), (''homepage'', Null)])]"

text \<open>The \<^verbatim>\<open>return\<close> of the producer: \<^verbatim>\<open>githubInfo.data.stargazers_count\<close> and its
  siblings; a TypeError when \<open>githubInfo\<close> or its \<^verbatim>\<open>data\<close> is \<^verbatim>\<open>null\<close> or
  \<^verbatim>\<open>undefined\<close>.\<close>

definition github_record :: "js \<Rightarrow> error + js" where
  "github_record githubInfo =
     (case read_prop githubInfo ''data'' of
        Inl e \<Rightarrow> Inl e
      | Inr d \<Rightarrow>
          (if d = Undef \<or> d = Null then Inl TypeError
           else Inr (Obj [(''stars'', get_prop (own_entries d) ''stargazers_count''),
                          (''description'', get_prop (own_entries d) ''description''),
                          (''title'', get_prop (own_entries d) ''name''),
                          (''url'', get_prop (own_entries d) ''homepage'')])))"

definition github_producer :: "env \<Rightarrow> string \<Rightarrow> string \<Rightarrow> js task" where
  "github_producer E owner repo s =
     (Inr (case github_repos_get E owner repo of
             Throws \<Rightarrow> github_empty
           | Rejects \<Rightarrow>
               (case github_record github_fallback of Inl e \<Rightarrow> github_empty | Inr r \<Rightarrow> r)
           | Resolves githubInfo \<Rightarrow>
               (case github_record githubInfo of Inl e \<Rightarrow> github_empty | Inr r \<Rightarrow> r)),
      emit (Remote ''github'' (owner @ ''/'' @ repo)) s)"

text \<open>
  \<^verbatim>\<open>getGithubInfo(url)\<close>. After the guard has let a string through, \<^verbatim>\<open>data[1]\<close> reads
  the result of \<^verbatim>\<open>exec\<close>, a TypeError when that is \<^verbatim>\<open>null\<close>. A value that is neither
  absent nor a string has no \<^verbatim>\<open>startsWith\<close>: a TypeError too.
\<close>

definition getGithubInfo :: "env \<Rightarrow> js \<Rightarrow> js task" where
  "getGithubInfo E url s =
     (if url = Undef \<or> url = Null then (Inr github_empty, s)
      else case url of
             Str u \<Rightarrow>
               (if \<not> prefix ''https://github.com/'' u
                   \<and> \<not> prefix ''ssh://git@github.com/'' u
                   \<and> \<not> prefix ''git://github.com/'' u
                then (Inr github_empty, s)
                else case github_exec u of
                       None \<Rightarrow> (Inl TypeError, s)
                     | Some (owner, repo) \<Rightarrow>
                         getData E (''github-'' @ owner @ ''-'' @ repo)
                           (github_producer E owner repo) s)
           | _ \<Rightarrow> (Inl TypeError, s))"

definition gitlab_empty :: js where
  "gitlab_empty = Obj [(''stars'', Null), (''description'', Null), (''title'', Null),
                       (''url'', Null), (''tags'', Arr [])]"

definition gitlab_fallback :: js where
  "gitlab_fallback = Obj [(''star_count'', Null), (''description'', Null), (''name'', Null),
                          (''web_url'', Null), (''tag_list'', Arr [])]"

definition gitlab_record :: "js \<Rightarrow> error + js" where
  "gitlab_record gitlabInfo =
     (if gitlabInfo = Undef \<or> gitlabInfo = Null then Inl TypeError
      else Inr (Obj [(''stars'', get_prop (own_entries gitlabInfo) ''star_count''),
                     (''description'', get_prop (own_entries gitlabInfo) ''description''),
                     (''title'', get_prop (own_entries gitlabInfo) ''name''),
                     (''url'', get_prop (own_entries gitlabInfo) ''web_url''),
                     (''tags'', get_prop (own_entries gitlabInfo) ''tag_list'')]))"

definition gitlab_producer :: "env \<Rightarrow> string \<Rightarrow> string \<Rightarrow> js task" where
  "gitlab_producer E owner repo s =
     (Inr (case gitlab_show E (owner @ ''/'' @ repo) of
             Throws \<Rightarrow> gitlab_empty
           | Rejects \<Rightarrow>
               (case gitlab_record gitlab_fallback of Inl e \<Rightarrow> gitlab_empty | Inr r \<Rightarrow> r)
           | Resolves gitlabInfo \<Rightarrow>
               (case gitlab_record gitlabInfo of Inl e \<Rightarrow> gitlab_empty | Inr r \<Rightarrow> r)),
      emit (Remote ''gitlab'' (owner @ ''/'' @ repo)) s)"

definition getGitlabInfo :: "env \<Rightarrow> js \<Rightarrow> js task" where
  "getGitlabInfo E url s =
     (if url = Undef \<or> url = Null then (Inr gitlab_empty, s)
      else case url of
             Str u \<Rightarrow>
               (if \<not> prefix ''https://gitlab.com/'' u then (Inr gitlab_empty, s)
                else case gitlab_exec u of
                       None \<Rightarrow> (Inl TypeError, s)
                     | Some (owner, repo) \<Rightarrow>
                         getData E (''gitlab-'' @ owner @ ''-'' @ repo)
                           (gitlab_producer E owner repo) s)
           | _ \<Rightarrow> (Inl TypeError, s))"

section \<open>Enrichment of one item\<close>

text \<open>\<^verbatim>\<open>merge(item, await fetch)\<close>: the merged object, with its prototype.\<close>

definition merge_with :: "js \<Rightarrow> js task \<Rightarrow> (proto \<times> js) task" where
  "merge_with item fetch =
     then_do fetch (\<lambda>info.
       lift_err (case merge item info of
                   Inl e \<Rightarrow> Inl e
                 | Inr merged \<Rightarrow> Inr (merge_proto item info, merged)))"

text \<open>
  \<^verbatim>\<open>item.k\<close> for the names \<^verbatim>\<open>repo\<close> and \<^verbatim>\<open>url\<close>, which no built-in prototype has:
  the own property, or else the property of the prototype that a \<^verbatim>\<open>merge\<close> gave the
  item, itself a parsed value with the default prototype.
\<close>

definition read_chain :: "proto \<Rightarrow> js \<Rightarrow> string \<Rightarrow> js" where
  "read_chain p item k =
     (if has_key (own_entries item) k then get_prop (own_entries item) k
      else case p of Proto q \<Rightarrow> get_prop (own_entries q) k | _ \<Rightarrow> Undef)"

text \<open>\<^verbatim>\<open>item.repo || item.url\<close>, for an item that is not \<^verbatim>\<open>null\<close> or \<^verbatim>\<open>undefined\<close>.\<close>

definition repo_or_url :: "proto \<Rightarrow> js \<Rightarrow> js" where
  "repo_or_url p item = js_or (read_chain p item ''repo'') (read_chain p item ''url'')"

text \<open>\<^verbatim>\<open>updateItem(item)\<close>, for an item of the parsed catalog, which has the default
  prototype.\<close>

definition updateItem :: "env \<Rightarrow> js \<Rightarrow> js task" where
  "updateItem E item =
     then_do (lift_err (Object_keys item)) (\<lambda>keys.
     then_do (if ''npm'' \<in> set keys
              then merge_with item (getNpmInfo E (get_prop (own_entries item) ''npm''))
              else lift_err (Inr (ObjectPrototype, item))) (\<lambda>item1.
     then_do (merge_with (snd item1)
                (getGithubInfo E (repo_or_url (fst item1) (snd item1)))) (\<lambda>item2.
     then_do (merge_with (snd item2)
                (getGitlabInfo E (repo_or_url (fst item2) (snd item2)))) (\<lambda>item3.
     lift_err (Inr (snd item3))))))"

section \<open>The batch scheduler and the entry point\<close>

text \<open>
  The tasks of a batch are all started before any of them goes on after its first wait,
  and they interleave where they wait for the cache or a remote service. No task awaits a
  cache write, and in the model no write completes while a batch is running: every task of
  a batch reads the cache as it was when the batch started, so two tasks of one batch with
  the same key both miss and both call the remote service. The tasks then affect each
  other only through the order of their events in the trace, and the model runs them one
  after the other; the trace of a batch lists the events task by task, not in the order in
  time. \<^verbatim>\<open>Promise.allSettled\<close> keeps every outcome, fulfilled or rejected.
\<close>

fun run_tasks :: "env \<Rightarrow> js list \<Rightarrow> state \<Rightarrow> (error + js) list \<times> state" where
  "run_tasks E [] s = ([], s)"
| "run_tasks E (item # items) s =
     (let (r, s1) = updateItem E item s;
          (rs, s2) = run_tasks E items s1
      in (r # rs, s2))"

text \<open>\<^verbatim>\<open>result.value\<close> of a settled result: a rejected one has no \<^verbatim>\<open>value\<close> property.\<close>

fun settled_value :: "error + js \<Rightarrow> js" where
  "settled_value (Inr v) = v"
| "settled_value (Inl e) = Undef"

text \<open>\<^verbatim>\<open>parsed.splice(start, count, ...items)\<close>.\<close>

definition splice :: "js list \<Rightarrow> nat \<Rightarrow> nat \<Rightarrow> js list \<Rightarrow> js list" where
  "splice parsed start count items = take start parsed @ items @ drop (start + count) parsed"

text \<open>\<^verbatim>\<open>writeProgress(position, total)\<close>, with the standard output a terminal, where
  \<^verbatim>\<open>clearLine\<close> and \<^verbatim>\<open>cursorTo\<close> exist; the model does not cover a run whose output
  is redirected. The percentage is not part of the model.\<close>

definition writeProgress :: "nat \<Rightarrow> nat \<Rightarrow> state \<Rightarrow> state" where
  "writeProgress position total' s = emit (Progress position total') s"

definition chunkSize :: nat where
  "chunkSize = 10"

text \<open>One round of the \<^verbatim>\<open>for\<close> loop of \<^verbatim>\<open>transform\<close>, for batch number \<open>i\<close>. When
  the batch has settled, the writes its tasks issued have completed or are still pending,
  as the environment says.\<close>

text \<open>The cache when batch \<open>i\<close> has settled: with the writes issued so far completed, or
  as it was.\<close>

definition after_batch :: "env \<Rightarrow> nat \<Rightarrow> state \<Rightarrow> state" where
  "after_batch E i s = (if writes_complete_after E i then settle_writes E s else s)"

definition batch_round :: "env \<Rightarrow> nat \<Rightarrow> js list \<Rightarrow> state \<Rightarrow> js list \<times> state" where
  "batch_round E i parsed s =
     (let (promise, s1) = run_tasks E (take chunkSize (drop (i * chunkSize) parsed)) s;
          s2 = after_batch E i s1;
          parsed' = splice parsed (i * chunkSize) chunkSize (map settled_value promise)
      in (parsed',
          writeProgress (min (length parsed') ((i + 1) * chunkSize)) (length parsed') s2))"

lemma length_run_tasks: "length (fst (run_tasks E items s)) = length items"
proof (induction items arbitrary: s)
  case Nil
  then show ?case by simp
next
  case (Cons item items)
  obtain r s1 where u: "updateItem E item s = (r, s1)" by (cases "updateItem E item s")
  obtain rs s2 where t: "run_tasks E items s1 = (rs, s2)" by (cases "run_tasks E items s1")
  from Cons.IH[of s1] t have "length rs = length items" by simp
  with u t show ?case by simp
qed

lemma length_batch_round: "length (fst (batch_round E i parsed s)) = length parsed"
proof -
  have "length (fst (run_tasks E (take chunkSize (drop (i * chunkSize) parsed)) s))
        = min chunkSize (length parsed - i * chunkSize)"
    by (simp add: length_run_tasks)
  then show ?thesis
    by (auto simp: batch_round_def splice_def Let_def split: prod.splits)
qed

text \<open>The loop \<^verbatim>\<open>for (let i = 0; i < Math.ceil(parsed.length/chunkSize); i++)\<close>, from
  batch \<open>i\<close> on; the bound is read again in every round.\<close>

function batch_loop :: "env \<Rightarrow> nat \<Rightarrow> js list \<Rightarrow> state \<Rightarrow> js list \<times> state" where
  "batch_loop E i parsed s =
     (if i < (length parsed + (chunkSize - 1)) div chunkSize
      then case batch_round E i parsed s of (parsed', s') \<Rightarrow> batch_loop E (i + 1) parsed' s'
      else (parsed, s))"
  by pat_completeness auto
termination
  apply (relation "measure (\<lambda>(E, i, parsed, s). (length parsed + (chunkSize - 1)) div chunkSize - i)")
   apply simp
  subgoal for E i parsed s parsed' s'
    using length_batch_round[of E i parsed s] by (cases "batch_round E i parsed s") auto
  done

declare batch_loop.simps [simp del]

text \<open>\<^verbatim>\<open>/[\d]/.exec(message)\<close>: the first decimal digit of the message, if it has one,
  and \<^verbatim>\<open>parseInt\<close> of that one character.\<close>

definition is_digit :: "char \<Rightarrow> bool" where
  "is_digit c = (48 \<le> (of_char c :: nat) \<and> (of_char c :: nat) \<le> 57)"

definition first_digit :: "string \<Rightarrow> nat option" where
  "first_digit message =
     (case filter is_digit message of [] \<Rightarrow> None | c # cs \<Rightarrow> Some (of_char c - 48))"

text \<open>The \<^verbatim>\<open>catch\<close> block of \<^verbatim>\<open>transform\<close>: \<^verbatim>\<open>exec(...)[0]\<close> is a TypeError when the
  message has no digit and \<^verbatim>\<open>exec\<close> returns \<^verbatim>\<open>null\<close>.\<close>

definition catch_parse_error :: "string \<Rightarrow> string \<Rightarrow> state \<Rightarrow> (error + js option) \<times> state" where
  "catch_parse_error errMessage id' s =
     (case first_digit errMessage of
        None \<Rightarrow> (Inl TypeError, s)
      | Some position \<Rightarrow> (Inr None, emit (Warn ''Could not parse JSON file'' id' position) s))"

text \<open>
  \<^verbatim>\<open>transform(json, id)\<close>. The result \<open>Inr None\<close> is \<^verbatim>\<open>null\<close>, \<open>Inr (Some d)\<close> is the
  re-serialised catalog handed to the JSON plugin, \<open>Inl e\<close> a rejection. The parsed
  catalog is an array. The writes of the start line and of the duration are not part of
  the model, and the JSON plugin is taken to return.
\<close>

definition transform :: "env \<Rightarrow> string \<Rightarrow> string \<Rightarrow> state \<Rightarrow> (error + js option) \<times> state" where
  "transform E json id' s =
     (if \<not> suffix ''src/pages/components/components.json'' id' then (Inr None, s)
      else if \<not> filter_id E id' then (Inr None, s)
      else case parse_catalog E json of
             Inl errMessage \<Rightarrow> catch_parse_error errMessage id' s
           | Inr parsed \<Rightarrow>
               (case batch_loop E 0 parsed s of
                  (parsed', s') \<Rightarrow> (Inr (JSON_stringify (Arr parsed')), s')))"

section \<open>Concrete environments\<close>

text \<open>
  A run with an empty cache, no write pending and nothing traced yet, and an environment
  in which every remote call is rejected, the cache never faults, the writes of a batch
  have completed when the batch has settled, every id passes the filter, and
  \<^verbatim>\<open>JSON.parse\<close> rejects the catalog text with the message V8 gives for a text that
  ends too early.
\<close>

definition empty_state :: state where
  "empty_state = \<lparr>store = (\<lambda>k. None), pending = [], trace = []\<rparr>"

definition offline_env :: env where
  "offline_env =
     \<lparr>packageJson = (\<lambda>n. Rejects),
      github_repos_get = (\<lambda>owner repo. Rejects),
      gitlab_show = (\<lambda>p. Rejects),
      cache_get_fault = (\<lambda>k. False),
      cache_set_fault = (\<lambda>k. False),
      writes_complete_after = (\<lambda>i. True),
      parse_catalog = (\<lambda>json. Inl ''Unexpected end of JSON input''),
      filter_id = (\<lambda>i. True)\<rparr>"

text \<open>A value without \<^verbatim>\<open>undefined\<close> and without a number that is not finite anywhere
  inside.\<close>

fun round_trips :: "js \<Rightarrow> bool" where
  "round_trips Undef = False"
| "round_trips (NonFinite n) = False"
| "round_trips (Arr xs) = list_all round_trips xs"
| "round_trips (Obj fs) = list_all (\<lambda>kv. round_trips (snd kv)) fs"
| "round_trips v = True"

text \<open>A registry that answers every name with the metadata \<^verbatim>\<open>{name: "pkg"}\<close>, a package
  without description, keywords, homepage or repository.\<close>

definition bare_registry_env :: env where
  "bare_registry_env =
     offline_env\<lparr>packageJson := (\<lambda>n. Resolves (Obj [(''name'', Str ''pkg'')]))\<rparr>"

text \<open>The same environment with a cache whose writes all fault.\<close>

definition write_fault_env :: env where
  "write_fault_env = offline_env\<lparr>cache_set_fault := (\<lambda>k. True)\<rparr>"

text \<open>A catalog of twelve items, a full batch and a second batch of two. The fourth item
  names a repository address with a single path segment.\<close>

definition titled :: "string \<Rightarrow> js" where
  "titled t = Obj [(''title'', Str t)]"

definition short_path_item :: js where
  "short_path_item = Obj [(''title'', Str ''d''), (''repo'', Str ''https://github.com/foo'')]"

definition catalog12 :: "js list" where
  "catalog12 = [titled ''a'', titled ''b'', titled ''c'', short_path_item, titled ''e'',
                titled ''f'', titled ''g'', titled ''h'', titled ''i'', titled ''j'',
                titled ''k'', titled ''l'']"

text \<open>An item that names the package \<^verbatim>\<open>pkg\<close>.\<close>

definition pkg_item :: js where
  "pkg_item = Obj [(''npm'', Str ''pkg'')]"

text \<open>A hosting service that answers every repository with a description made of its owner
  and its name.\<close>

definition repos_env :: env where
  "repos_env =
     offline_env\<lparr>github_repos_get :=
       (\<lambda>owner repo. Resolves (Obj [(''data'', Obj [(''description'', Str (owner @ ''/'' @ repo))])]))\<rparr>"

text \<open>An item with a title, after an enrichment that found nothing.\<close>

definition enriched :: "string \<Rightarrow> js" where
  "enriched t = Obj [(''title'', Str t), (''tags'', Arr [])]"

definition catalog_env :: env where
  "catalog_env = offline_env\<lparr>parse_catalog := (\<lambda>json. Inr catalog12)\<rparr>"

section \<open>The identifier space of the cache keys\<close>

text \<open>
  The keys the three fetchers hand to \<^verbatim>\<open>getData\<close>: \<^verbatim>\<open>npm-<name>\<close>,
  \<^verbatim>\<open>github-<owner>-<repo>\<close> and \<^verbatim>\<open>gitlab-<owner>-<repo>\<close>. A realistic package name
  follows the registry's naming rule (lower-case letters, digits and \<^verbatim>\<open>- . _ ~\<close>, with
  \<^verbatim>\<open>@\<close> and \<^verbatim>\<open>/\<close> for a scope); a realistic owner or repository name is made of
  letters, digits and \<^verbatim>\<open>- . _\<close>.
\<close>

datatype ident = Npm string | Github string string | Gitlab string string

fun raw_key :: "ident \<Rightarrow> string" where
  "raw_key (Npm name) = ''npm-'' @ name"
| "raw_key (Github owner repo) = ''github-'' @ owner @ ''-'' @ repo"
| "raw_key (Gitlab owner repo) = ''gitlab-'' @ owner @ ''-'' @ repo"

definition is_lower :: "char \<Rightarrow> bool" where
  "is_lower c = (97 \<le> (of_char c :: nat) \<and> (of_char c :: nat) \<le> 122)"

definition is_upper :: "char \<Rightarrow> bool" where
  "is_upper c = (65 \<le> (of_char c :: nat) \<and> (of_char c :: nat) \<le> 90)"

definition npm_name_char :: "char \<Rightarrow> bool" where
  "npm_name_char c = (is_lower c \<or> is_digit c \<or> c \<in> set ''-._~@/'')"

definition repo_name_char :: "char \<Rightarrow> bool" where
  "repo_name_char c = (is_lower c \<or> is_upper c \<or> is_digit c \<or> c \<in> set ''-._'')"

fun realistic :: "ident \<Rightarrow> bool" where
  "realistic (Npm name) = (name \<noteq> [] \<and> list_all npm_name_char name)"
| "realistic (Github owner repo) =
     (owner \<noteq> [] \<and> repo \<noteq> [] \<and> list_all repo_name_char owner \<and> list_all repo_name_char repo)"
| "realistic (Gitlab owner repo) =
     (owner \<noteq> [] \<and> repo \<noteq> [] \<and> list_all repo_name_char owner \<and> list_all repo_name_char repo)"

section \<open>Merge on a store of objects\<close>

text \<open>
  Whether \<^verbatim>\<open>merge\<close> changes its arguments depends on which objects it writes to. Here
  objects and arrays live in a store, a list of cells addressed by position, and a value
  is a primitive or a reference to a cell. \<^verbatim>\<open>Object.assign({}, base)\<close> and
  \<^verbatim>\<open>.filter(...)\<close> allocate a new cell at the end of the store; the assignments
  \<^verbatim>\<open>newData[key] = value\<close> and \<^verbatim>\<open>newData.tags = ...\<close> overwrite the cell of
  \<open>newData\<close>. Temporaries that no result refers to (the entry pairs of
  \<^verbatim>\<open>Object.entries\<close>, the array literal that \<^verbatim>\<open>filter\<close> is called on) are not given a
  cell. A reference to no cell does not occur in JavaScript; the model gives it no
  properties. A cell holds the own properties of its object. The prototype of \<open>newData\<close>
  is a slot of its own fresh cell; of it the loop carries along whether the accessor of
  \<^verbatim>\<open>__proto__\<close> is still inherited, which is what decides where an assignment to that
  key goes. Every other object of the store has the default prototype.
\<close>

datatype ref_val = RUndef | RNull | RBool bool | RNum int | RNonFinite nonfinite | RStr string
  | Ref nat

datatype cell = ObjCell "(string \<times> ref_val) list" | ArrCell "ref_val list"

type_synonym heap = "cell list"

definition cell_at :: "heap \<Rightarrow> nat \<Rightarrow> cell option" where
  "cell_at h a = (if a < length h then Some (h ! a) else None)"

definition alloc :: "heap \<Rightarrow> cell \<Rightarrow> nat \<times> heap" where
  "alloc h c = (length h, h @ [c])"

fun h_truthy :: "ref_val \<Rightarrow> bool" where
  "h_truthy RUndef = False"
| "h_truthy RNull = False"
| "h_truthy (RBool b) = b"
| "h_truthy (RNum n) = (n \<noteq> 0)"
| "h_truthy (RNonFinite n) = (n \<noteq> NaN)"
| "h_truthy (RStr s) = (s \<noteq> [])"
| "h_truthy (Ref a) = True"

fun h_own_entries :: "heap \<Rightarrow> ref_val \<Rightarrow> (string \<times> ref_val) list" where
  "h_own_entries h (Ref a) =
     (case cell_at h a of
        Some (ObjCell fs) \<Rightarrow> fs
      | Some (ArrCell xs) \<Rightarrow> zip (map dec_nat [0..<length xs]) xs
      | None \<Rightarrow> [])"
| "h_own_entries h (RStr s) = zip (map dec_nat [0..<length s]) (map (\<lambda>c. RStr [c]) s)"
| "h_own_entries h v = []"

definition h_Object_entries :: "heap \<Rightarrow> ref_val \<Rightarrow> error + (string \<times> ref_val) list" where
  "h_Object_entries h v =
     (if v = RUndef \<or> v = RNull then Inl TypeError else Inr (h_own_entries h v))"

definition h_get_prop :: "(string \<times> ref_val) list \<Rightarrow> string \<Rightarrow> ref_val" where
  "h_get_prop fs k = (case map_of fs k of None \<Rightarrow> RUndef | Some v \<Rightarrow> v)"

text \<open>\<^verbatim>\<open>Array.isArray(v)\<close>.\<close>

fun h_is_array :: "heap \<Rightarrow> ref_val \<Rightarrow> bool" where
  "h_is_array h (Ref a) = (case cell_at h a of Some (ArrCell xs) \<Rightarrow> True | _ \<Rightarrow> False)"
| "h_is_array h v = False"

fun h_spread :: "heap \<Rightarrow> ref_val \<Rightarrow> error + ref_val list" where
  "h_spread h (Ref a) = (case cell_at h a of Some (ArrCell xs) \<Rightarrow> Inr xs | _ \<Rightarrow> Inl TypeError)"
| "h_spread h (RStr s) = Inr (map (\<lambda>c. RStr [c]) s)"
| "h_spread h v = Inl TypeError"

fun h_includes_svelte :: "heap \<Rightarrow> ref_val \<Rightarrow> error + bool" where
  "h_includes_svelte h (RStr s) = Inr (includes_str s ''svelte'')"
| "h_includes_svelte h (Ref a) =
     (case cell_at h a of
        Some (ArrCell xs) \<Rightarrow> Inr (RStr ''svelte'' \<in> set xs)
      | _ \<Rightarrow> Inl TypeError)"
| "h_includes_svelte h v = Inl TypeError"

fun h_filter_tags :: "heap \<Rightarrow> ref_val list \<Rightarrow> error + ref_val list" where
  "h_filter_tags h [] = Inr []"
| "h_filter_tags h (t # ts) =
     (case h_includes_svelte h t of
        Inl e \<Rightarrow> Inl e
      | Inr b \<Rightarrow> (case h_filter_tags h ts of
                   Inl e \<Rightarrow> Inl e
                 | Inr r \<Rightarrow> Inr (if b then r else t # r)))"

text \<open>The fields of the object \<open>newData\<close> at address \<open>nd\<close>.\<close>

definition fields_at :: "heap \<Rightarrow> nat \<Rightarrow> (string \<times> ref_val) list" where
  "fields_at h nd = (case cell_at h nd of Some (ObjCell fs) \<Rightarrow> fs | _ \<Rightarrow> [])"

text \<open>\<^verbatim>\<open>[...(t || [])]\<close>: nothing when \<open>t\<close> is falsy.\<close>

definition h_spread_or_empty :: "heap \<Rightarrow> ref_val \<Rightarrow> error + ref_val list" where
  "h_spread_or_empty h t = (if h_truthy t then h_spread h t else Inr [])"

text \<open>Whether the accessor is still inherited after the setter was called with \<open>v\<close>.\<close>

fun h_setter_after :: "heap \<Rightarrow> bool \<Rightarrow> ref_val \<Rightarrow> bool" where
  "h_setter_after h b RNull = False"
| "h_setter_after h b (Ref a) =
     (case cell_at h a of
        Some (ObjCell fs) \<Rightarrow> \<not> has_key fs ''__proto__''
      | Some (ArrCell xs) \<Rightarrow> True
      | None \<Rightarrow> b)"
| "h_setter_after h b v = b"

text \<open>\<^verbatim>\<open>newData[ky] = val\<close> on the store, with \<open>newData\<close> at address \<open>nd\<close>.\<close>

definition h_assign :: "heap \<Rightarrow> nat \<Rightarrow> bool \<Rightarrow> string \<Rightarrow> ref_val \<Rightarrow> bool \<times> heap" where
  "h_assign h nd setter ky val =
     (if ky = ''__proto__'' \<and> \<not> has_key (fields_at h nd) ky \<and> setter
      then (h_setter_after h setter val, h)
      else (setter, h[nd := ObjCell (set_prop (fields_at h nd) ky val)]))"

text \<open>One call of the \<^verbatim>\<open>forEach\<close> callback, on the store: the error thrown, if any, and
  the state of the accessor and the store afterwards.\<close>

definition h_merge_step ::
  "heap \<Rightarrow> nat \<Rightarrow> bool \<Rightarrow> string \<Rightarrow> ref_val \<Rightarrow> error option \<times> bool \<times> heap" where
  "h_merge_step h nd setter ky val =
     (if val = RUndef \<or> val = RNull \<or> val = RStr []
      then (None, setter, h)
      else if \<not> has_key (fields_at h nd) ky
      then (None, h_assign h nd setter ky val)
      else if ky = ''tags'' \<and> h_is_array h val
      then (case h_spread_or_empty h (h_get_prop (fields_at h nd) ''tags'') of
              Inl e \<Rightarrow> (Some e, setter, h)
            | Inr old \<Rightarrow>
                (case h_spread h val of
                   Inl e \<Rightarrow> (Some e, setter, h)
                 | Inr new \<Rightarrow>
                     (case h_filter_tags h (old @ new) of
                        Inl e \<Rightarrow> (Some e, setter, h)
                      | Inr ts \<Rightarrow>
                          (case alloc h (ArrCell ts) of
                             (a, h') \<Rightarrow>
                               (None, setter,
                                h'[nd := ObjCell (set_prop (fields_at h' nd) ''tags'' (Ref a))])))))
      else (None, setter, h))"

fun h_merge_entries ::
  "heap \<Rightarrow> nat \<Rightarrow> bool \<Rightarrow> (string \<times> ref_val) list \<Rightarrow> error option \<times> bool \<times> heap" where
  "h_merge_entries h nd setter [] = (None, setter, h)"
| "h_merge_entries h nd setter ((k, v) # es) =
     (case h_merge_step h nd setter k v of
        (Some e, b, h') \<Rightarrow> (Some e, b, h')
      | (None, b, h') \<Rightarrow> h_merge_entries h' nd b es)"

text \<open>\<^verbatim>\<open>Object.assign({}, base)\<close> on the store: the address of the copy, the state of
  the accessor and the store afterwards.\<close>

definition h_Object_assign :: "heap \<Rightarrow> ref_val \<Rightarrow> nat \<times> bool \<times> heap" where
  "h_Object_assign h base =
     (case alloc h (ObjCell (filter (\<lambda>kv. fst kv \<noteq> ''__proto__'') (h_own_entries h base))) of
        (nd, h1) \<Rightarrow>
          (nd,
           (case map_of (h_own_entries h base) ''__proto__'' of
              None \<Rightarrow> True
            | Some v \<Rightarrow> h_setter_after h True v),
           h1))"

text \<open>\<^verbatim>\<open>merge(base, additional)\<close> on the store: the error or the reference to the merged
  object, and the store afterwards.\<close>

definition h_merge :: "heap \<Rightarrow> ref_val \<Rightarrow> ref_val \<Rightarrow> (error + ref_val) \<times> heap" where
  "h_merge h base additional =
     (case h_Object_assign h base of
        (nd, setter, h1) \<Rightarrow>
          (case h_Object_entries h1 additional of
             Inl e \<Rightarrow> (Inl e, h1)
           | Inr es \<Rightarrow>
               (case h_merge_entries h1 nd setter es of
                  (Some e, b, h2) \<Rightarrow> (Inl e, h2)
                | (None, b, h2) \<Rightarrow> (Inr (Ref nd), h2))))"

text \<open>
  The value a store value stands for: \<open>denotes X h v j\<close> says that \<open>v\<close>, followed through
  the cells of \<open>h\<close> with addresses in \<open>X\<close>, is the value \<open>j\<close> of the first model.
\<close>

inductive denotes :: "nat set \<Rightarrow> heap \<Rightarrow> ref_val \<Rightarrow> js \<Rightarrow> bool" for X :: "nat set" and h :: heap where
  d_undef: "denotes X h RUndef Undef"
| d_null: "denotes X h RNull Null"
| d_bool: "denotes X h (RBool b) (Bool b)"
| d_num: "denotes X h (RNum n) (Num n)"
| d_nonfinite: "denotes X h (RNonFinite n) (NonFinite n)"
| d_str: "denotes X h (RStr s) (Str s)"
| d_arr: "a \<in> X \<Longrightarrow> cell_at h a = Some (ArrCell xs) \<Longrightarrow> list_all2 (denotes X h) xs js
          \<Longrightarrow> denotes X h (Ref a) (Arr js)"
| d_obj: "a \<in> X \<Longrightarrow> cell_at h a = Some (ObjCell fs)
          \<Longrightarrow> list_all2 (\<lambda>kv kj. fst kv = fst kj \<and> denotes X h (snd kv) (snd kj)) fs gs
          \<Longrightarrow> denotes X h (Ref a) (Obj gs)"

definition fields_rel :: "nat set \<Rightarrow> heap \<Rightarrow> (string \<times> ref_val) list \<Rightarrow> fields \<Rightarrow> bool" where
  "fields_rel X h fs gs = list_all2 (\<lambda>kv kj. fst kv = fst kj \<and> denotes X h (snd kv) (snd kj)) fs gs"

text \<open>The addresses a step of the loop may rely on: every cell but the one of
  \<open>newData\<close>. \<open>step_ok\<close> relates the outcome of a step (or of the loop) on the store
  with its outcome on values: the same error, or related fields of \<open>newData\<close> and the
  same state of the accessor, and no cell lost or changed but the one of \<open>newData\<close>.\<close>

definition live :: "heap \<Rightarrow> nat \<Rightarrow> nat set" where
  "live h nd = {a. a < length h \<and> a \<noteq> nd}"

definition step_ok ::
  "heap \<Rightarrow> nat \<Rightarrow> error option \<times> bool \<times> heap \<Rightarrow> error + proto \<times> fields \<Rightarrow> bool" where
  "step_ok h nd r pr =
     (case r of
        (res, b, h') \<Rightarrow>
          (case res of
             Some e \<Rightarrow> pr = Inl e
           | None \<Rightarrow> (\<exists>fs' p' ndp'. pr = Inr (p', ndp') \<and> cell_at h' nd = Some (ObjCell fs')
                          \<and> fields_rel (live h' nd) h' fs' ndp' \<and> b = setter_reachable p'))
          \<and> length h \<le> length h'
          \<and> (\<forall>a. a \<in> live h nd \<longrightarrow> cell_at h' a = cell_at h a))"

text \<open>The two records of the tag example, each with its tags array, in a store.\<close>

definition tags_store :: heap where
  "tags_store = [ObjCell [(''tags'', Ref 1)], ArrCell [RStr ''ui'', RStr ''svelte-icons''],
                 ObjCell [(''tags'', Ref 3)], ArrCell [RStr ''framework'', RStr ''svelte'']]"

section \<open>Properties\<close>

lemma includes_str_iff: "includes_str s pat \<longleftrightarrow> (\<exists>a b. s = a @ pat @ b)"
proof (induction s)
  case Nil
  then show ?case by auto
next
  case (Cons c cs)
  show ?case
  proof
    assume "includes_str (c # cs) pat"
    then consider "prefix pat (c # cs)" | "includes_str cs pat" by auto
    then show "\<exists>a b. c # cs = a @ pat @ b"
    proof cases
      case 1
      then obtain b where "c # cs = pat @ b" by (auto simp: prefix_def)
      then have "c # cs = [] @ pat @ b" by simp
      then show ?thesis by blast
    next
      case 2
      with Cons obtain a b where "cs = a @ pat @ b" by blast
      then have "c # cs = (c # a) @ pat @ b" by simp
      then show ?thesis by blast
    qed
  next
    assume "\<exists>a b. c # cs = a @ pat @ b"
    then obtain a b where ab: "c # cs = a @ pat @ b" by blast
    show "includes_str (c # cs) pat"
    proof (cases a)
      case Nil
      with ab have "prefix pat (c # cs)" by (simp add: prefix_def)
      then show ?thesis by simp
    next
      case (Cons x a')
      with ab have "cs = a' @ pat @ b" by simp
      with Cons.IH show ?thesis by auto
    qed
  qed
qed

subsection \<open>Merge\<close>

lemma map_of_set_prop: "map_of (set_prop fs k v) k' = (if k' = k then Some v else map_of fs k')"
  by (induction fs) auto

lemma has_key_map_of: "has_key fs k \<longleftrightarrow> map_of fs k \<noteq> None"
  by (simp add: has_key_def map_of_eq_None_iff)

lemma has_key_set_prop: "has_key (set_prop fs k v) k' = (k' = k \<or> has_key fs k')"
  by (simp add: has_key_map_of map_of_set_prop)

lemma map_of_without: "k \<noteq> k' \<Longrightarrow> map_of (filter (\<lambda>kv. fst kv \<noteq> k') fs) k = map_of fs k"
  by (induction fs) auto

lemma map_of_assign:
  "ky \<noteq> k \<Longrightarrow> map_of (snd (assign nd ky v)) k = map_of (snd nd) k"
  by (cases nd) (simp add: assign_def map_of_set_prop)

lemma merge_step_other:
  assumes "merge_step nd ky v = Inr nd'" "k \<noteq> ''tags''" "has_key (snd nd) k"
  shows "map_of (snd nd') k = map_of (snd nd) k"
proof (cases "has_key (snd nd) ky")
  case False
  with assms(3) have "ky \<noteq> k" by auto
  with assms(1) False show ?thesis
    by (auto simp: merge_step_def map_of_assign split: if_splits)
next
  case True
  with assms(1,2) show ?thesis
    by (auto simp: merge_step_def map_of_set_prop split: if_splits sum.splits)
qed

lemma merge_entries_other:
  assumes "merge_entries nd es = Inr nd'" "k \<noteq> ''tags''" "has_key (snd nd) k"
  shows "map_of (snd nd') k = map_of (snd nd) k"
  using assms
proof (induction es arbitrary: nd)
  case Nil
  then show ?case by simp
next
  case (Cons e es)
  obtain ky v where e: "e = (ky, v)" by (cases e)
  from Cons.prems(1) e obtain m where m: "merge_step nd ky v = Inr m" "merge_entries m es = Inr nd'"
    by (auto split: sum.splits)
  from merge_step_other[OF m(1) Cons.prems(2,3)] have k: "map_of (snd m) k = map_of (snd nd) k" .
  with Cons.prems(3) have "has_key (snd m) k" by (simp add: has_key_map_of)
  from Cons.IH[OF m(2) Cons.prems(2) this] k show ?case by simp
qed

text \<open>
  Claim C7, amended. For every key other than \<^verbatim>\<open>tags\<close> and \<^verbatim>\<open>__proto__\<close> that \<open>base\<close>
  already has, a merge that returns keeps the value \<open>base\<close> has for that key, whatever
  \<open>additional\<close> holds; so \<^verbatim>\<open>merge({title:"A"}, {title:"B"})\<close> has the title \<^verbatim>\<open>"A"\<close>.
\<close>

theorem merge_base_wins:
  assumes "merge base additional = Inr (Obj r)" and "k \<noteq> ''tags''" and "k \<noteq> ''__proto__''"
    and "has_key (own_entries base) k"
  shows "get_prop r k = get_prop (own_entries base) k"
proof -
  from assms(1) obtain es p where m: "merge_entries (Object_assign base) es = Inr (p, r)"
    by (auto simp: merge_def merge_object_def split: sum.splits)
  have c: "map_of (snd (Object_assign base)) k = map_of (own_entries base) k"
    using assms(3) by (simp add: Object_assign_def map_of_without)
  with assms(4) have "has_key (snd (Object_assign base)) k" by (simp add: has_key_map_of)
  from merge_entries_other[OF m assms(2) this] c show ?thesis by (simp add: get_prop_def)
qed

theorem merge_base_wins_witness:
  "merge (Obj [(''title'', Str ''A'')]) (Obj [(''title'', Str ''B'')]) = Inr (Obj [(''title'', Str ''A'')])
   \<and> get_prop [(''title'', Str ''A'')] ''title'' = Str ''A''"
proof -
  have m: "merge (Obj [(''title'', Str ''A'')]) (Obj [(''title'', Str ''B'')]) = Inr (Obj [(''title'', Str ''A'')])"
    by (simp add: merge_def merge_object_def Object_assign_def Object_entries_def merge_step_def
        has_key_def)
  have "get_prop [(''title'', Str ''A'')] ''title'' = get_prop (own_entries (Obj [(''title'', Str ''A'')])) ''title''"
    by (rule merge_base_wins[OF m]) (simp_all add: has_key_def)
  then show ?thesis using m by (simp add: get_prop_def)
qed

text \<open>
  The claim as stated, for every key other than \<^verbatim>\<open>tags\<close>, fails at the key
  \<^verbatim>\<open>__proto__\<close>, which a parsed item can have as an own property: the copy of \<open>base\<close>
  hands its value to the setter of the prototype, which ignores a string, and the merged
  record has no such property.
\<close>

theorem merge_base_wins_counterexample:
  "merge (Obj [(''__proto__'', Str ''x''), (''title'', Str ''A'')]) (Obj [(''title'', Str ''B'')])
     = Inr (Obj [(''title'', Str ''A'')])
   \<and> ''__proto__'' \<noteq> ''tags''
   \<and> has_key (own_entries (Obj [(''__proto__'', Str ''x''), (''title'', Str ''A'')])) ''__proto__''
   \<and> get_prop [(''title'', Str ''A'')] ''__proto__''
       \<noteq> get_prop (own_entries (Obj [(''__proto__'', Str ''x''), (''title'', Str ''A'')])) ''__proto__''"
  by (simp add: merge_def merge_object_def Object_assign_def Object_entries_def merge_step_def
      has_key_def get_prop_def)

lemma filter_tags_strings:
  "filter_tags (map Str xs) = Inr (map Str (filter (\<lambda>t. \<not> includes_str t ''svelte'') xs))"
  by (induction xs) simp_all

lemma merge_step_not_tags:
  assumes "ky \<noteq> ''tags''"
  shows "\<exists>nd'. merge_step nd ky v = Inr nd' \<and> map_of (snd nd') ''tags'' = map_of (snd nd) ''tags''"
proof -
  have "merge_step nd ky v = Inr nd \<or> merge_step nd ky v = Inr (assign nd ky v)"
    using assms by (simp add: merge_step_def)
  then consider (same) "merge_step nd ky v = Inr nd"
    | (new) "merge_step nd ky v = Inr (assign nd ky v)"
    by blast
  then show ?thesis
  proof cases
    case same
    then show ?thesis by blast
  next
    case new
    moreover have "map_of (snd (assign nd ky v)) ''tags'' = map_of (snd nd) ''tags''"
      using assms by (rule map_of_assign)
    ultimately show ?thesis by blast
  qed
qed

lemma merge_entries_not_tags:
  assumes "''tags'' \<notin> fst ` set es"
  shows "\<exists>nd'. merge_entries nd es = Inr nd' \<and> map_of (snd nd') ''tags'' = map_of (snd nd) ''tags''"
  using assms
proof (induction es arbitrary: nd)
  case Nil
  then show ?case by simp
next
  case (Cons e es)
  obtain ky v where e: "e = (ky, v)" by (cases e)
  with Cons.prems have "ky \<noteq> ''tags''" by auto
  from merge_step_not_tags[OF this] obtain m where
    m: "merge_step nd ky v = Inr m" "map_of (snd m) ''tags'' = map_of (snd nd) ''tags''" by blast
  from Cons.prems have "''tags'' \<notin> fst ` set es" by auto
  from Cons.IH[OF this, of m] m e show ?case by auto
qed

text \<open>Only the tags can make \<^verbatim>\<open>merge\<close> throw: without a \<^verbatim>\<open>tags\<close> entry in
  \<open>additional\<close> it returns.\<close>

lemma merge_returns_without_tags:
  assumes "additional \<noteq> Undef" and "additional \<noteq> Null"
    and "''tags'' \<notin> fst ` set (own_entries additional)"
  shows "\<exists>r. merge base additional = Inr (Obj r)"
proof -
  from merge_entries_not_tags[OF assms(3), of "Object_assign base"] obtain r where
    "merge_entries (Object_assign base) (own_entries additional) = Inr r" by blast
  then show ?thesis using assms(1,2) by (simp add: merge_def merge_object_def Object_entries_def)
qed

lemma merge_step_tags:
  assumes "map_of (snd nd) ''tags'' = Some (Arr (map Str bs))"
  shows "merge_step nd ''tags'' (Arr (map Str as)) =
    Inr (fst nd, set_prop (snd nd) ''tags''
           (Arr (map Str (filter (\<lambda>t. \<not> includes_str t ''svelte'') (bs @ as)))))"
proof -
  have hk: "has_key (snd nd) ''tags''" using assms by (simp add: has_key_map_of)
  have "filter_tags (map Str bs @ map Str as) = Inr (map Str (filter (\<lambda>t. \<not> includes_str t ''svelte'') (bs @ as)))"
    using filter_tags_strings[of "bs @ as"] by simp
  then show ?thesis using hk assms
    by (simp add: merge_step_def get_prop_def js_or_def)
qed

lemma merge_entries_tags:
  assumes "distinct (map fst es)"
    and "map_of es ''tags'' = Some (Arr (map Str as))"
    and "map_of (snd nd) ''tags'' = Some (Arr (map Str bs))"
  shows "\<exists>r. merge_entries nd es = Inr r \<and>
     map_of (snd r) ''tags'' = Some (Arr (map Str (filter (\<lambda>t. \<not> includes_str t ''svelte'') (bs @ as))))"
  using assms
proof (induction es arbitrary: nd)
  case Nil
  then show ?case by simp
next
  case (Cons e es)
  obtain ky v where e: "e = (ky, v)" by (cases e)
  show ?case
  proof (cases "ky = ''tags''")
    case True
    with Cons.prems e have v: "v = Arr (map Str as)" and nt: "''tags'' \<notin> fst ` set es" by auto
    let ?m = "(fst nd, set_prop (snd nd) ''tags''
                (Arr (map Str (filter (\<lambda>t. \<not> includes_str t ''svelte'') (bs @ as)))))"
    have step: "merge_step nd ''tags'' v = Inr ?m" unfolding v by (rule merge_step_tags[OF Cons.prems(3)])
    from merge_entries_not_tags[OF nt, of ?m] obtain r where
      "merge_entries ?m es = Inr r" "map_of (snd r) ''tags'' = map_of (snd ?m) ''tags''" by blast
    then show ?thesis using step e True by (simp add: map_of_set_prop)
  next
    case False
    from merge_step_not_tags[OF False] obtain m where
      m: "merge_step nd ky v = Inr m" "map_of (snd m) ''tags'' = map_of (snd nd) ''tags''" by blast
    have "distinct (map fst es)" "map_of es ''tags'' = Some (Arr (map Str as))"
      using Cons.prems e False by auto
    from Cons.IH[OF this, of m] m Cons.prems(3) e show ?thesis by auto
  qed
qed

text \<open>
  Claim C6. When \<open>base\<close> and \<open>additional\<close> both have a \<^verbatim>\<open>tags\<close> sequence of strings,
  \<^verbatim>\<open>merge\<close> returns a record whose tags are the tags of \<open>base\<close> followed by those of
  \<open>additional\<close>, without the tags that contain \<^verbatim>\<open>svelte\<close> as a substring and otherwise in
  the same order.
\<close>

theorem merge_tags_concat_filter:
  assumes "distinct (map fst additional)"
    and "map_of base ''tags'' = Some (Arr (map Str bs))"
    and "map_of additional ''tags'' = Some (Arr (map Str as))"
  shows "\<exists>r. merge (Obj base) (Obj additional) = Inr (Obj r) \<and>
     get_prop r ''tags'' = Arr (map Str (filter (\<lambda>t. \<not> includes_str t ''svelte'') (bs @ as)))"
proof -
  have "map_of (snd (Object_assign (Obj base))) ''tags'' = Some (Arr (map Str bs))"
    using assms(2) by (simp add: Object_assign_def map_of_without)
  from merge_entries_tags[OF assms(1) assms(3) this] obtain r where
    "merge_entries (Object_assign (Obj base)) additional = Inr r"
    "map_of (snd r) ''tags'' = Some (Arr (map Str (filter (\<lambda>t. \<not> includes_str t ''svelte'') (bs @ as))))"
    by blast
  then show ?thesis by (simp add: merge_def merge_object_def Object_entries_def get_prop_def)
qed

theorem merge_tags_concat_filter_witness:
  "\<exists>r. merge (Obj [(''tags'', Arr [Str ''ui'', Str ''svelte-icons''])])
              (Obj [(''tags'', Arr [Str ''framework'', Str ''svelte''])]) = Inr (Obj r)
       \<and> get_prop r ''tags'' = Arr [Str ''ui'', Str ''framework'']"
proof -
  have d: "distinct (map fst [(''tags'', Arr [Str ''framework'', Str ''svelte''])])" by simp
  have b: "map_of [(''tags'', Arr [Str ''ui'', Str ''svelte-icons''])] ''tags''
    = Some (Arr (map Str [''ui'', ''svelte-icons'']))" by simp
  have a: "map_of [(''tags'', Arr [Str ''framework'', Str ''svelte''])] ''tags''
    = Some (Arr (map Str [''framework'', ''svelte'']))" by simp
  show ?thesis using merge_tags_concat_filter[OF d b a] by simp
qed

text \<open>
  What \<^verbatim>\<open>__proto__\<close> does in a merge: an object as its value becomes the prototype of the
  merged record and is read through by \<^verbatim>\<open>item.repo\<close>; after \<^verbatim>\<open>null\<close>, or an object with
  an own \<^verbatim>\<open>__proto__\<close>, the setter is out of reach and the next assignment to the key
  creates an own property.
\<close>

lemma merge_proto_object:
  "merge (Obj [(''__proto__'', Obj [(''repo'', Str ''r'')])]) (Obj []) = Inr (Obj [])"
  "merge_proto (Obj [(''__proto__'', Obj [(''repo'', Str ''r'')])]) (Obj [])
     = Proto (Obj [(''repo'', Str ''r'')])"
  "repo_or_url (Proto (Obj [(''repo'', Str ''r'')])) (Obj []) = Str ''r''"
  by (simp_all add: merge_def merge_proto_def merge_object_def Object_assign_def Object_entries_def
      repo_or_url_def read_chain_def js_or_def has_key_def get_prop_def)

lemma merge_proto_null_then_own:
  "merge (Obj [(''__proto__'', Null)]) (Obj [(''__proto__'', Str ''y'')])
     = Inr (Obj [(''__proto__'', Str ''y'')])"
  by (simp add: merge_def merge_object_def Object_assign_def Object_entries_def merge_step_def
      assign_def has_key_def)

subsection \<open>The fetchers\<close>

text \<open>
  Claim C8. When the URL is absent (\<^verbatim>\<open>undefined\<close> or \<^verbatim>\<open>null\<close>) or is a string that has
  none of the address forms of the platform (the https, ssh and git forms for GitHub,
  the https form for GitLab), the hosting fetcher returns its empty record at once and
  leaves the state as it was: no cache read, no cache write and no remote call.
\<close>

theorem hosting_short_circuit:
  "(url = Undef \<or> url = Null \<or> (\<exists>u. url = Str u \<and> \<not> github_address u)
      \<longrightarrow> getGithubInfo E url s = (Inr github_empty, s))
   \<and> (url = Undef \<or> url = Null \<or> (\<exists>u. url = Str u \<and> \<not> gitlab_address u)
      \<longrightarrow> getGitlabInfo E url s = (Inr gitlab_empty, s))"
  by (auto simp: getGithubInfo_def getGitlabInfo_def github_address_def gitlab_address_def)

theorem hosting_short_circuit_witness:
  "\<forall>E s. getGithubInfo E (Str ''https://example.com/x'') s = (Inr github_empty, s)
       \<and> getGitlabInfo E (Str ''https://example.com/x'') s = (Inr gitlab_empty, s)"
proof (intro allI)
  fix E s
  have g: "\<not> github_address ''https://example.com/x''" by (simp add: github_address_def)
  have l: "\<not> gitlab_address ''https://example.com/x''" by (simp add: gitlab_address_def)
  show "getGithubInfo E (Str ''https://example.com/x'') s = (Inr github_empty, s)
       \<and> getGitlabInfo E (Str ''https://example.com/x'') s = (Inr gitlab_empty, s)"
    using hosting_short_circuit[of "Str ''https://example.com/x''" E s] g l by simp
qed

text \<open>The owner and the repository name are the first two path segments; an address
  with one segment has no match.\<close>

lemma github_exec_foo: "github_exec ''https://github.com/foo'' = None"
  by (simp add: github_exec_def strip_prefix_def two_segments_def)

lemma gitlab_exec_foo: "gitlab_exec ''https://gitlab.com/foo'' = None"
  by (simp add: gitlab_exec_def strip_prefix_def two_segments_def)

lemma github_exec_two_segments:
  "github_exec ''https://github.com/foo/bar'' = Some (''foo'', ''bar'')"
  by (simp add: github_exec_def strip_prefix_def two_segments_def)

lemma github_exec_ssh: "github_exec ''ssh://git@github.com/foo/bar/baz'' = Some (''foo'', ''bar'')"
  by (simp add: github_exec_def strip_prefix_def two_segments_def)

lemma gitlab_exec_two_segments:
  "gitlab_exec ''https://gitlab.com/foo/bar'' = Some (''foo'', ''bar'')"
  by (simp add: gitlab_exec_def strip_prefix_def two_segments_def)

text \<open>
  Claim C1. Every fetcher is to return a record and never reject, whatever string it is
  given. An address that passes the guard but has fewer than two path segments makes
  \<^verbatim>\<open>exec\<close> return \<^verbatim>\<open>null\<close>, and both hosting fetchers reject with a TypeError before
  they reach the cache. The lemmas after the theorem show that these are the only strings
  on which a hosting fetcher rejects, and that the registry fetcher never does.
\<close>

theorem hosting_fetchers_throw_on_short_path:
  "getGithubInfo E (Str ''https://github.com/foo'') s = (Inl TypeError, s)
   \<and> getGitlabInfo E (Str ''https://gitlab.com/foo'') s = (Inl TypeError, s)"
  by (simp add: getGithubInfo_def getGitlabInfo_def github_exec_foo gitlab_exec_foo)

lemma getData_total:
  assumes "\<And>t. \<exists>v t'. valueGetter t = (Inr v, t')"
  shows "\<exists>v s'. getData E cacheKey valueGetter s = (Inr v, s')"
proof -
  obtain got s1 where g: "cache_get E (normalize_key cacheKey) s = (got, s1)"
    by (cases "cache_get E (normalize_key cacheKey) s")
  from assms[of s1] obtain v t' where p: "valueGetter s1 = (Inr v, t')" by blast
  show ?thesis using g p
    by (cases "cached_value got") (simp_all add: getData_def Let_def)
qed

lemma getNpmInfo_total: "\<exists>v s'. getNpmInfo E packageName s = (Inr v, s')"
  unfolding getNpmInfo_def by (rule getData_total) (simp add: npm_producer_def)

lemma getGithubInfo_rejects_iff:
  "(\<exists>e s'. getGithubInfo E url s = (Inl e, s')) \<longleftrightarrow>
   (url \<noteq> Undef \<and> url \<noteq> Null \<and> (case url of Str u \<Rightarrow> github_address u \<and> github_exec u = None | _ \<Rightarrow> True))"
proof (cases url)
  case (Str u)
  show ?thesis
  proof (cases "github_address u")
    case False
    then show ?thesis using Str by (simp add: getGithubInfo_def github_address_def)
  next
    case True
    show ?thesis
    proof (cases "github_exec u")
      case None
      then show ?thesis using Str True by (simp add: getGithubInfo_def github_address_def)
    next
      case (Some p)
      obtain owner repo where p: "p = (owner, repo)" by (cases p)
      have "\<exists>v s'. getData E (''github-'' @ owner @ ''-'' @ repo) (github_producer E owner repo) s = (Inr v, s')"
        by (rule getData_total) (simp add: github_producer_def)
      then show ?thesis using Str True Some p by (auto simp: getGithubInfo_def github_address_def)
    qed
  qed
qed (simp_all add: getGithubInfo_def)

lemma getGitlabInfo_rejects_iff:
  "(\<exists>e s'. getGitlabInfo E url s = (Inl e, s')) \<longleftrightarrow>
   (url \<noteq> Undef \<and> url \<noteq> Null \<and>
    (case url of Str u \<Rightarrow> gitlab_address u \<and> gitlab_exec u = None | _ \<Rightarrow> True))"
proof (cases url)
  case (Str u)
  show ?thesis
  proof (cases "gitlab_address u")
    case False
    then show ?thesis using Str by (simp add: getGitlabInfo_def gitlab_address_def)
  next
    case True
    show ?thesis
    proof (cases "gitlab_exec u")
      case None
      then show ?thesis using Str True by (simp add: getGitlabInfo_def gitlab_address_def)
    next
      case (Some p)
      obtain owner repo where p: "p = (owner, repo)" by (cases p)
      have "\<exists>v s'. getData E (''gitlab-'' @ owner @ ''-'' @ repo) (gitlab_producer E owner repo) s = (Inr v, s')"
        by (rule getData_total) (simp add: gitlab_producer_def)
      then show ?thesis using Str True Some p by (auto simp: getGitlabInfo_def gitlab_address_def)
    qed
  qed
qed (simp_all add: getGitlabInfo_def)

lemma producers_degrade:
  "(\<forall>v. packageJson E n \<noteq> Resolves v) \<Longrightarrow> fst (npm_producer E n s) = Inr npm_empty"
  "(\<forall>v. github_repos_get E owner repo \<noteq> Resolves v) \<Longrightarrow>
     fst (github_producer E owner repo s) = Inr github_empty"
  "(\<forall>v. gitlab_show E (owner @ ''/'' @ repo) \<noteq> Resolves v) \<Longrightarrow>
     fst (gitlab_producer E owner repo s) = Inr gitlab_empty"
proof -
  show "(\<forall>v. packageJson E n \<noteq> Resolves v) \<Longrightarrow> fst (npm_producer E n s) = Inr npm_empty"
    by (cases "packageJson E n") (simp_all add: npm_producer_def)
  show "(\<forall>v. github_repos_get E owner repo \<noteq> Resolves v) \<Longrightarrow>
     fst (github_producer E owner repo s) = Inr github_empty"
    by (cases "github_repos_get E owner repo")
      (simp_all add: github_producer_def github_record_def github_fallback_def github_empty_def
        read_prop_def get_prop_def)
  show "(\<forall>v. gitlab_show E (owner @ ''/'' @ repo) \<noteq> Resolves v) \<Longrightarrow>
     fst (gitlab_producer E owner repo s) = Inr gitlab_empty"
    by (cases "gitlab_show E (owner @ ''/'' @ repo)")
      (simp_all add: gitlab_producer_def gitlab_record_def gitlab_fallback_def gitlab_empty_def
        get_prop_def)
qed

subsection \<open>The cache-backed fetch wrapper\<close>

lemma complete_writes_append:
  "complete_writes E (ws @ ws') s = complete_writes E ws' (complete_writes E ws s)"
  by (induction ws arbitrary: s) auto

lemma pending_emit: "pending (emit e s) = pending s"
  by (simp add: emit_def)

lemma remote_calls_complete_writes: "remote_calls (complete_writes E ws s) = remote_calls s"
  by (induction ws arbitrary: s) (auto simp: remote_calls_def emit_def)

lemma remote_calls_settle_writes: "remote_calls (settle_writes E s) = remote_calls s"
  by (simp add: settle_writes_def remote_calls_complete_writes) (simp add: remote_calls_def)

text \<open>
  Claim C9. When the cache read misses and the cache write faults, \<^verbatim>\<open>getData\<close> still
  returns the value the producer computed, and the fault does not reach its caller: the
  write is left pending, and when it completes the store is what it would be without it
  and the rejection has no handler.
\<close>

theorem getData_write_fault:
  assumes "\<not> cache_get_fault E (normalize_key cacheKey)"
    and "store s (normalize_key cacheKey) = None"
    and "cache_set_fault E (normalize_key cacheKey)"
    and "valueGetter (emit (CacheGet (normalize_key cacheKey)) s) = (Inr v, s2)"
  shows "getData E cacheKey valueGetter s =
           (Inr v,
            emit (CacheSet (normalize_key cacheKey))
              (s2\<lparr>pending := pending s2 @
                 [(normalize_key cacheKey,
                   \<lparr>data = JSON_stringify v, key = normalize_key cacheKey\<rparr>)]\<rparr>))
         \<and> settle_writes E (snd (getData E cacheKey valueGetter s)) =
             emit (UnhandledRejection (normalize_key cacheKey))
               (settle_writes E (emit (CacheSet (normalize_key cacheKey)) s2))"
proof -
  let ?k = "normalize_key cacheKey"
  let ?w = "(?k, \<lparr>data = JSON_stringify v, key = ?k\<rparr>)"
  let ?s3 = "emit (CacheSet ?k) (s2\<lparr>pending := pending s2 @ [?w]\<rparr>)"
  have g: "getData E cacheKey valueGetter s = (Inr v, ?s3)"
    using assms by (simp add: getData_def cache_get_def cached_value_def cache_set_def Let_def)
  have "settle_writes E ?s3 =
      complete_writes E [?w] (complete_writes E (pending s2) ((emit (CacheSet ?k) s2)\<lparr>pending := []\<rparr>))"
    by (simp add: settle_writes_def complete_writes_append[symmetric] emit_def)
  also have "\<dots> = emit (UnhandledRejection ?k) (settle_writes E (emit (CacheSet ?k) s2))"
    using assms(3) by (simp add: settle_writes_def pending_emit)
  finally show ?thesis using g by simp
qed

theorem getData_write_fault_witness:
  "getData write_fault_env ''k'' (\<lambda>t. (Inr (Num 7), emit (Remote ''service'' ''id'') t)) empty_state
     = (Inr (Num 7),
        \<lparr>store = (\<lambda>k. None),
         pending = [(''k'', \<lparr>data = Some (Num 7), key = ''k''\<rparr>)],
         trace = [CacheGet ''k'', Remote ''service'' ''id'', CacheSet ''k'']\<rparr>)
   \<and> settle_writes write_fault_env
        (snd (getData write_fault_env ''k''
               (\<lambda>t. (Inr (Num 7), emit (Remote ''service'' ''id'') t)) empty_state))
     = \<lparr>store = (\<lambda>k. None), pending = [],
        trace = [CacheGet ''k'', Remote ''service'' ''id'', CacheSet ''k'',
                 UnhandledRejection ''k'']\<rparr>"
proof -
  have k: "normalize_key ''k'' = ''k''" by (simp add: normalize_key_def)
  have a: "\<not> cache_get_fault write_fault_env (normalize_key ''k'')"
    by (simp add: write_fault_env_def offline_env_def)
  have b: "store empty_state (normalize_key ''k'') = None" by (simp add: empty_state_def)
  have c: "cache_set_fault write_fault_env (normalize_key ''k'')"
    by (simp add: write_fault_env_def offline_env_def)
  show ?thesis
    using getData_write_fault[of write_fault_env "''k''" empty_state
        "\<lambda>t. (Inr (Num 7), emit (Remote ''service'' ''id'') t)" "Num 7"
        "emit (Remote ''service'' ''id'') (emit (CacheGet (normalize_key ''k'')) empty_state)"]
      a b c
    by (simp add: k emit_def empty_state_def settle_writes_def JSON_stringify_def)
qed

lemma json_doc_round_trips: "round_trips v \<Longrightarrow> json_doc v = v"
proof (induction v)
  case (Arr xs)
  have "map (\<lambda>x. if x = Undef then Null else json_doc x) xs = xs"
  proof (rule map_idI)
    fix x assume x: "x \<in> set xs"
    with Arr.prems have u: "round_trips x" by (simp add: list_all_iff)
    then have "x \<noteq> Undef" by auto
    with Arr.IH[OF x u] show "(if x = Undef then Null else json_doc x) = x" by simp
  qed
  then show ?case by simp
next
  case (Obj fs)
  have all: "\<And>kv. kv \<in> set fs \<Longrightarrow> round_trips (snd kv)"
    using Obj.prems by (simp add: list_all_iff)
  have f: "filter (\<lambda>kv. snd kv \<noteq> Undef) fs = fs"
  proof (rule filter_True)
    show "\<forall>kv\<in>set fs. snd kv \<noteq> Undef"
    proof
      fix kv assume "kv \<in> set fs"
      from all[OF this] show "snd kv \<noteq> Undef" by (cases "snd kv") simp_all
    qed
  qed
  have "map (\<lambda>kv. (fst kv, json_doc (snd kv))) fs = fs"
  proof (rule map_idI)
    fix kv assume kv: "kv \<in> set fs"
    have "snd kv \<in> Basic_BNFs.snds kv" by (cases kv) simp
    from Obj.IH[OF kv this all[OF kv]] show "(fst kv, json_doc (snd kv)) = kv" by simp
  qed
  with f show ?case by simp
qed simp_all

lemma store_complete_writes_last:
  "\<not> cache_set_fault E k \<Longrightarrow> store (complete_writes E (ws @ [(k, e)]) s) k = Some e"
  by (simp add: complete_writes_append)

text \<open>
  Claim C3, amended. Start from a cache without an entry for the key, with reads and
  writes of that key not faulting, and take a producer that makes one remote call and is
  fulfilled with a value \<open>v\<close> other than \<^verbatim>\<open>undefined\<close>. If the write that the first call of
  \<^verbatim>\<open>getData\<close> issues has completed when the second call with the key reads the cache,
  the two calls make one remote call; the first call returns \<open>v\<close> and the second returns
  \<open>v\<close> as JSON serialisation and parsing give it back, which is \<open>v\<close> itself when \<open>v\<close> has
  neither \<^verbatim>\<open>undefined\<close> nor a number that is not finite inside.
\<close>

theorem getData_twice:
  assumes "\<not> cache_get_fault E (normalize_key cacheKey)"
    and "\<not> cache_set_fault E (normalize_key cacheKey)"
    and "store s (normalize_key cacheKey) = None"
    and "\<forall>t. valueGetter t = (Inr v, emit (Remote platform ident) t)"
    and "v \<noteq> Undef"
  shows "\<exists>s1 s2. getData E cacheKey valueGetter s = (Inr v, s1)
           \<and> getData E cacheKey valueGetter (settle_writes E s1) = (Inr (json_doc v), s2)
           \<and> remote_calls s2 = remote_calls s + 1
           \<and> (round_trips v \<longrightarrow> json_doc v = v)"
proof -
  let ?k = "normalize_key cacheKey"
  let ?e = "\<lparr>data = JSON_stringify v, key = ?k\<rparr>"
  let ?s1 = "cache_set ?k ?e (emit (Remote platform ident) (emit (CacheGet ?k) s))"
  have first: "getData E cacheKey valueGetter s = (Inr v, ?s1)"
    using assms by (simp add: getData_def cache_get_def cached_value_def Let_def)
  have "pending ?s1 = pending s @ [(?k, ?e)]" by (simp add: cache_set_def emit_def)
  then have st: "store (settle_writes E ?s1) ?k = Some \<lparr>data = Some (json_doc v), key = ?k\<rparr>"
    using assms(2,5) by (simp add: settle_writes_def store_complete_writes_last JSON_stringify_def)
  have second: "getData E cacheKey valueGetter (settle_writes E ?s1)
      = (Inr (json_doc v), emit (CacheGet ?k) (settle_writes E ?s1))"
    using assms(1) st by (simp add: getData_def cache_get_def cached_value_def Let_def JSON_parse_def)
  have "remote_calls (emit (CacheGet ?k) (settle_writes E ?s1)) = remote_calls (settle_writes E ?s1)"
    by (simp add: remote_calls_def emit_def)
  also have "\<dots> = remote_calls ?s1" by (rule remote_calls_settle_writes)
  also have "\<dots> = remote_calls s + 1" by (simp add: remote_calls_def cache_set_def emit_def)
  finally have rc: "remote_calls (emit (CacheGet ?k) (settle_writes E ?s1)) = remote_calls s + 1" .
  show ?thesis using first second rc json_doc_round_trips by blast
qed

lemma normalize_key_k: "normalize_key ''k'' = ''k''"
  by (simp add: normalize_key_def)

theorem getData_twice_witness:
  "\<exists>s1 s2. getData offline_env ''k'' (\<lambda>t. (Inr (Num 7), emit (Remote ''service'' ''id'') t)) empty_state = (Inr (Num 7), s1)
      \<and> getData offline_env ''k'' (\<lambda>t. (Inr (Num 7), emit (Remote ''service'' ''id'') t))
            (settle_writes offline_env s1) = (Inr (Num 7), s2)
      \<and> remote_calls s2 = 1"
proof -
  have a: "\<not> cache_get_fault offline_env (normalize_key ''k'')" by (simp add: offline_env_def)
  have b: "\<not> cache_set_fault offline_env (normalize_key ''k'')" by (simp add: offline_env_def)
  have c: "store empty_state (normalize_key ''k'') = None" by (simp add: empty_state_def)
  have d: "\<forall>t. (\<lambda>t. (Inr (Num 7), emit (Remote ''service'' ''id'') t)) t = (Inr (Num 7), emit (Remote ''service'' ''id'') t)" by simp
  have e: "Num 7 \<noteq> Undef" by simp
  have r: "remote_calls empty_state = 0" by (simp add: remote_calls_def empty_state_def)
  show ?thesis using getData_twice[OF a b c d e] r by simp
qed

lemma normalize_key_npm_pkg: "normalize_key ''npm-pkg'' = ''npm-pkg''"
  by (simp add: normalize_key_def)

lemma getNpmInfo_pkg_miss:
  assumes "store s ''npm-pkg'' = None"
  shows "getNpmInfo bare_registry_env (Str ''pkg'') s =
     (Inr (Obj [(''description'', Undef), (''tags'', Undef), (''url'', Undef),
                (''repo'', Null), (''title'', Str ''pkg'')]),
      cache_set ''npm-pkg'' \<lparr>data = Some (Obj [(''repo'', Null), (''title'', Str ''pkg'')]),
                               key = ''npm-pkg''\<rparr>
        (emit (Remote ''npm'' ''pkg'') (emit (CacheGet ''npm-pkg'') s)))"
  using assms
  by (simp add: getNpmInfo_def getData_def normalize_key_npm_pkg cache_get_def cached_value_def
      Let_def npm_producer_def bare_registry_env_def offline_env_def npm_record_def get_prop_def
      js_or_def strip_git_plus_def strip_dot_git_def JSON_stringify_def)

lemma getNpmInfo_pkg_hit:
  assumes "store s ''npm-pkg'' = Some \<lparr>data = Some d, key = ''npm-pkg''\<rparr>"
  shows "getNpmInfo bare_registry_env (Str ''pkg'') s = (Inr d, emit (CacheGet ''npm-pkg'') s)"
  using assms
  by (simp add: getNpmInfo_def getData_def normalize_key_npm_pkg cache_get_def cached_value_def
      Let_def bare_registry_env_def offline_env_def JSON_parse_def)

lemma updateItem_pkg_item_miss:
  assumes "store s ''npm-pkg'' = None"
  shows "updateItem bare_registry_env pkg_item s =
     (Inr (Obj [(''npm'', Str ''pkg''), (''title'', Str ''pkg''), (''tags'', Arr [])]),
      cache_set ''npm-pkg'' \<lparr>data = Some (Obj [(''repo'', Null), (''title'', Str ''pkg'')]),
                               key = ''npm-pkg''\<rparr>
        (emit (Remote ''npm'' ''pkg'') (emit (CacheGet ''npm-pkg'') s)))"
  using getNpmInfo_pkg_miss[OF assms]
  by (simp add: updateItem_def pkg_item_def then_do_def lift_err_def Object_keys_def merge_with_def
      repo_or_url_def read_chain_def get_prop_def js_or_def getGithubInfo_def getGitlabInfo_def
      merge_def merge_proto_def merge_object_def Object_assign_def assign_def
      github_empty_def gitlab_empty_def Object_entries_def merge_step_def has_key_def)

text \<open>
  The claim as stated fails. Two calls with one key both miss the cache and both call
  the remote service when the write of the first has not completed before the second
  reads, as it is for two calls in a row that do not wait for the write, and for the tasks
  of two items of one batch that name the same package. And when the write has completed,
  the registry fetcher returns, for a package without keywords, a record with
  \<^verbatim>\<open>undefined\<close> fields on the first call and a record without these fields on the second.
\<close>

theorem getData_twice_counterexample:
  "remote_calls (snd (getNpmInfo bare_registry_env (Str ''pkg'')
                   (snd (getNpmInfo bare_registry_env (Str ''pkg'') empty_state)))) = 2
   \<and> remote_calls (snd (run_tasks bare_registry_env [pkg_item, pkg_item] empty_state)) = 2
   \<and> fst (getNpmInfo bare_registry_env (Str ''pkg'') empty_state)
       = Inr (Obj [(''description'', Undef), (''tags'', Undef), (''url'', Undef),
                   (''repo'', Null), (''title'', Str ''pkg'')])
   \<and> fst (getNpmInfo bare_registry_env (Str ''pkg'')
            (settle_writes bare_registry_env
              (snd (getNpmInfo bare_registry_env (Str ''pkg'') empty_state))))
       = Inr (Obj [(''repo'', Null), (''title'', Str ''pkg'')])"
proof -
  have e: "store empty_state ''npm-pkg'' = None" by (simp add: empty_state_def)
  let ?e = "\<lparr>data = Some (Obj [(''repo'', Null), (''title'', Str ''pkg'')]), key = ''npm-pkg''\<rparr>"
  let ?s1 = "cache_set ''npm-pkg'' ?e
      (emit (Remote ''npm'' ''pkg'') (emit (CacheGet ''npm-pkg'') empty_state))"
  have g1: "getNpmInfo bare_registry_env (Str ''pkg'') empty_state =
     (Inr (Obj [(''description'', Undef), (''tags'', Undef), (''url'', Undef),
                (''repo'', Null), (''title'', Str ''pkg'')]), ?s1)"
    by (rule getNpmInfo_pkg_miss[OF e])
  have s1: "store ?s1 ''npm-pkg'' = None"
    by (simp add: cache_set_def emit_def empty_state_def)
  have r1: "remote_calls ?s1 = 1"
    by (simp add: remote_calls_def cache_set_def emit_def empty_state_def)
  have c1: "remote_calls (snd (getNpmInfo bare_registry_env (Str ''pkg'')
                   (snd (getNpmInfo bare_registry_env (Str ''pkg'') empty_state)))) = 2"
    unfolding g1 snd_conv getNpmInfo_pkg_miss[OF s1]
    using r1 by (simp add: remote_calls_def cache_set_def emit_def)
  have u1: "updateItem bare_registry_env pkg_item empty_state =
     (Inr (Obj [(''npm'', Str ''pkg''), (''title'', Str ''pkg''), (''tags'', Arr [])]), ?s1)"
    by (rule updateItem_pkg_item_miss[OF e])
  have c2: "remote_calls (snd (run_tasks bare_registry_env [pkg_item, pkg_item] empty_state)) = 2"
    unfolding run_tasks.simps u1 split_conv updateItem_pkg_item_miss[OF s1] Let_def snd_conv
    using r1 by (simp add: remote_calls_def cache_set_def emit_def)
  have st: "store (settle_writes bare_registry_env ?s1) ''npm-pkg'' = Some ?e"
    by (simp add: settle_writes_def cache_set_def emit_def empty_state_def
        bare_registry_env_def offline_env_def)
  have c4: "fst (getNpmInfo bare_registry_env (Str ''pkg'')
            (settle_writes bare_registry_env
              (snd (getNpmInfo bare_registry_env (Str ''pkg'') empty_state))))
       = Inr (Obj [(''repo'', Null), (''title'', Str ''pkg'')])"
    unfolding g1 snd_conv getNpmInfo_pkg_hit[OF st] by simp
  have c3: "fst (getNpmInfo bare_registry_env (Str ''pkg'') empty_state)
       = Inr (Obj [(''description'', Undef), (''tags'', Undef), (''url'', Undef),
                   (''repo'', Null), (''title'', Str ''pkg'')])"
    unfolding g1 by simp
  show ?thesis using c1 c2 c3 c4 by blast
qed

subsection \<open>Key normalisation\<close>

lemma replace_first_absent: "c \<notin> set u \<Longrightarrow> replace_first c tok u = u"
  by (induction u) auto

lemma replace_first_present:
  "c \<in> set u \<Longrightarrow>
   replace_first c tok u = takeWhile (\<lambda>z. z \<noteq> c) u @ tok @ tl (dropWhile (\<lambda>z. z \<noteq> c) u)"
  by (induction u) auto

lemma split_at_first:
  "c \<in> set u \<Longrightarrow> u = takeWhile (\<lambda>z. z \<noteq> c) u @ c # tl (dropWhile (\<lambda>z. z \<noteq> c) u)"
  by (induction u) auto

lemma set_replace_first: "set (replace_first c tok u) \<subseteq> set u \<union> set tok"
  by (induction u) auto

lemma takeWhile_marker: "m \<notin> set xs \<Longrightarrow> takeWhile (\<lambda>z. z \<noteq> m) (xs @ m # ys) = xs"
  by (induction xs) auto

lemma replace_first_inj:
  assumes m: "m \<notin> set a" "m \<notin> set s" "m \<notin> set t"
    and eq: "replace_first c (a @ m # b) s = replace_first c (a @ m # b) t"
  shows "s = t"
proof -
  let ?tok = "a @ m # b"
  let ?p = "\<lambda>u. takeWhile (\<lambda>z. z \<noteq> c) u"
  let ?q = "\<lambda>u. tl (dropWhile (\<lambda>z. z \<noteq> c) u)"
  have pre: "takeWhile (\<lambda>z. z \<noteq> m) (replace_first c ?tok u) = ?p u @ a"
    if "c \<in> set u" "m \<notin> set u" for u
  proof -
    have "set (?p u) \<subseteq> set u" by (rule set_takeWhileD[THEN conjunct1, THEN subsetI])
    then have "m \<notin> set (?p u @ a)" using that(2) m(1) by auto
    then have "takeWhile (\<lambda>z. z \<noteq> m) ((?p u @ a) @ m # (b @ ?q u)) = ?p u @ a"
      by (rule takeWhile_marker)
    moreover have "replace_first c ?tok u = (?p u @ a) @ m # (b @ ?q u)"
      using replace_first_present[OF that(1), of ?tok] by simp
    ultimately show ?thesis by simp
  qed
  have has: "m \<in> set (replace_first c ?tok u)" if "c \<in> set u" for u
    using replace_first_present[OF that, of ?tok] by simp
  show ?thesis
  proof (cases "c \<in> set s")
    case True
    have "m \<in> set (replace_first c ?tok t)" using has[OF True] eq by simp
    have ct: "c \<in> set t"
    proof (rule ccontr)
      assume "c \<notin> set t"
      then have "replace_first c ?tok t = t" by (rule replace_first_absent)
      with \<open>m \<in> set (replace_first c ?tok t)\<close> m(3) show False by simp
    qed
    from pre[OF True m(2)] pre[OF ct m(3)] eq have p: "?p s = ?p t" by simp
    have "?p s @ ?tok @ ?q s = ?p t @ ?tok @ ?q t"
      using replace_first_present[OF True, of ?tok] replace_first_present[OF ct, of ?tok] eq
      by simp
    with p have q: "?q s = ?q t" by simp
    have "s = ?p s @ c # ?q s" by (rule split_at_first[OF True])
    also have "\<dots> = ?p t @ c # ?q t" using p q by simp
    also have "\<dots> = t" by (rule split_at_first[OF ct, symmetric])
    finally show ?thesis .
  next
    case False
    then have s: "replace_first c ?tok s = s" by (rule replace_first_absent)
    have "c \<notin> set t"
    proof
      assume "c \<in> set t"
      from has[OF this] eq s m(2) show False by simp
    qed
    then have "replace_first c ?tok t = t" by (rule replace_first_absent)
    with s eq show ?thesis by simp
  qed
qed

lemma normalize_key_inj:
  assumes "CHR ''A'' \<notin> set s" "CHR ''S'' \<notin> set s" "CHR ''A'' \<notin> set t" "CHR ''S'' \<notin> set t"
    and eq: "normalize_key s = normalize_key t"
  shows "s = t"
proof -
  let ?r = "\<lambda>u. replace_first CHR ''@'' ''--AT--'' u"
  have noS: "CHR ''S'' \<notin> set (?r u)" if "CHR ''S'' \<notin> set u" for u
    using set_replace_first[of "CHR ''@''" "''--AT--''" u] that by auto
  have "replace_first CHR ''/'' (''--'' @ CHR ''S'' # ''LASH--'') (?r s)
      = replace_first CHR ''/'' (''--'' @ CHR ''S'' # ''LASH--'') (?r t)"
    using eq by (simp add: normalize_key_def)
  then have "?r s = ?r t"
    by (rule replace_first_inj[rotated 3]) (use noS assms in simp_all)
  then have "replace_first CHR ''@'' (''--'' @ CHR ''A'' # ''T--'') s
      = replace_first CHR ''@'' (''--'' @ CHR ''A'' # ''T--'') t" by simp
  then show ?thesis
    by (rule replace_first_inj[rotated 3]) (use assms in simp_all)
qed

lemma npm_name_char_marker: "\<not> npm_name_char CHR ''A''" "\<not> npm_name_char CHR ''S''"
  by (simp_all add: npm_name_char_def is_lower_def is_digit_def)

lemma repo_name_char_plain: "\<not> repo_name_char CHR ''@''" "\<not> repo_name_char CHR ''/''"
  by (simp_all add: repo_name_char_def is_lower_def is_upper_def is_digit_def)

lemma list_all_absent: "list_all P xs \<Longrightarrow> \<not> P c \<Longrightarrow> c \<notin> set xs"
  by (auto simp: list_all_iff)

lemma normalize_key_plain:
  "CHR ''@'' \<notin> set u \<Longrightarrow> CHR ''/'' \<notin> set u \<Longrightarrow> normalize_key u = u"
  by (simp add: normalize_key_def replace_first_absent)

lemma normalize_key_npm_head: "\<exists>r. normalize_key (''npm-'' @ name) = CHR ''n'' # r"
  by (simp add: normalize_key_def)

lemma npm_key_markers:
  assumes "list_all npm_name_char name"
  shows "CHR ''A'' \<notin> set (''npm-'' @ name)" and "CHR ''S'' \<notin> set (''npm-'' @ name)"
  using list_all_absent[OF assms npm_name_char_marker(1)]
    list_all_absent[OF assms npm_name_char_marker(2)] by simp_all

lemma hosting_key_plain:
  assumes "list_all repo_name_char owner" "list_all repo_name_char repo"
    and that: "CHR ''@'' \<notin> set p" "CHR ''/'' \<notin> set p"
  shows "normalize_key (p @ owner @ ''-'' @ repo) = p @ owner @ ''-'' @ repo"
proof (rule normalize_key_plain)
  show "CHR ''@'' \<notin> set (p @ owner @ ''-'' @ repo)"
    using that list_all_absent[OF assms(1) repo_name_char_plain(1)]
      list_all_absent[OF assms(2) repo_name_char_plain(1)] by simp
  show "CHR ''/'' \<notin> set (p @ owner @ ''-'' @ repo)"
    using that list_all_absent[OF assms(1) repo_name_char_plain(2)]
      list_all_absent[OF assms(2) repo_name_char_plain(2)] by simp
qed

text \<open>
  On the key strings the fetchers build from realistic names, the two replacements of
  \<^verbatim>\<open>getData\<close> lose nothing: key strings that differ stay different.
\<close>

lemma normalize_key_injective_on_keys:
  assumes "realistic a" "realistic b" "raw_key a \<noteq> raw_key b"
  shows "normalize_key (raw_key a) \<noteq> normalize_key (raw_key b)"
proof
  assume eq: "normalize_key (raw_key a) = normalize_key (raw_key b)"
  have plain: "normalize_key (raw_key x) = raw_key x" if "realistic x" "\<forall>n. x \<noteq> Npm n" for x
  proof (cases x)
    case (Npm n)
    with that show ?thesis by simp
  next
    case (Github owner repo)
    with that hosting_key_plain[of owner repo "''github-''"] show ?thesis by simp
  next
    case (Gitlab owner repo)
    with that hosting_key_plain[of owner repo "''gitlab-''"] show ?thesis by simp
  qed
  have g: "\<exists>r. raw_key x = CHR ''g'' # r" if "\<forall>n. x \<noteq> Npm n" for x
    using that by (cases x) simp_all
  show False
  proof (cases "(\<exists>n. a = Npm n)")
    case True
    then obtain n where a: "a = Npm n" by blast
    show ?thesis
    proof (cases "\<exists>n'. b = Npm n'")
      case True
      then obtain n' where b: "b = Npm n'" by blast
      have ra: "list_all npm_name_char n" and rb: "list_all npm_name_char n'"
        using assms a b by simp_all
      have e: "normalize_key (''npm-'' @ n) = normalize_key (''npm-'' @ n')"
        using eq unfolding a b by (simp only: raw_key.simps)
      have "''npm-'' @ n = ''npm-'' @ n'"
        by (rule normalize_key_inj[OF npm_key_markers[OF ra] npm_key_markers[OF rb] e])
      then have "raw_key a = raw_key b" unfolding a b by (simp only: raw_key.simps)
      with assms(3) show False by simp
    next
      case False
      then have nb: "\<forall>n. b \<noteq> Npm n" by blast
      obtain r where r: "normalize_key (raw_key a) = CHR ''n'' # r"
        using normalize_key_npm_head[of n] a by auto
      obtain r' where r': "raw_key b = CHR ''g'' # r'" using g[OF nb] by blast
      from r r' plain[OF assms(2) nb] eq have "CHR ''n'' # r = CHR ''g'' # r'" by simp
      then show False by simp
    qed
  next
    case False
    then have na: "\<forall>n. a \<noteq> Npm n" by blast
    show ?thesis
    proof (cases "\<exists>n'. b = Npm n'")
      case True
      then obtain n' where b: "b = Npm n'" by blast
      obtain r where r: "normalize_key (raw_key b) = CHR ''n'' # r"
        using normalize_key_npm_head[of n'] b by auto
      obtain r' where r': "raw_key a = CHR ''g'' # r'" using g[OF na] by blast
      from r r' plain[OF assms(1) na] eq have "CHR ''n'' # r = CHR ''g'' # r'" by simp
      then show False by simp
    next
      case False
      then have nb: "\<forall>n. b \<noteq> Npm n" by blast
      from plain[OF assms(1) na] plain[OF assms(2) nb] eq assms(3) show False by simp
    qed
  qed
qed

lemma normalize_key_scoped_package:
  "normalize_key (raw_key (Npm ''@sveltejs/kit'')) = ''npm---AT--sveltejs--SLASH--kit''"
  by (simp add: normalize_key_def)

lemma normalize_key_collision_outside:
  "normalize_key ''npm-@a'' = normalize_key ''npm---AT--a''"
  by (simp add: normalize_key_def)

text \<open>The key a hosting fetcher passes to \<^verbatim>\<open>getData\<close> is the key string of the owner
  and repository pair that its regular expression reads from the address.\<close>

lemma getGithubInfo_key:
  assumes "prefix ''https://github.com/'' u" and "github_exec u = Some (owner, repo)"
  shows "getGithubInfo E (Str u) s
           = getData E (raw_key (Github owner repo)) (github_producer E owner repo) s"
  using assms by (simp add: getGithubInfo_def)

lemma github_exec_two_repositories:
  "github_exec ''https://github.com/a-b/c'' = Some (''a-b'', ''c'')"
  "github_exec ''https://github.com/a/b-c'' = Some (''a'', ''b-c'')"
  by (simp_all add: github_exec_def strip_prefix_def two_segments_def)

text \<open>
  Claim C4. The claim asks that two distinct identifiers the fetchers produce, package
  names and owner and repository pairs, never share a normalised cache key. The code joins
  owner and repository name with a hyphen, which either name may contain: the
  repositories \<^verbatim>\<open>a-b/c\<close> and \<^verbatim>\<open>a/b-c\<close> are distinct, both realistic, and share the key
  \<^verbatim>\<open>github-a-b-c\<close>. Once the record of the first is in the cache, the fetcher
  answers a request for the second with the record of the first and makes no remote call,
  where on an empty cache it fetches the record of the second.
\<close>

theorem owner_repo_pairs_share_cache_entry:
  "realistic (Github ''a-b'' ''c'') \<and> realistic (Github ''a'' ''b-c'')
   \<and> Github ''a-b'' ''c'' \<noteq> Github ''a'' ''b-c''
   \<and> normalize_key (raw_key (Github ''a-b'' ''c'')) = ''github-a-b-c''
   \<and> normalize_key (raw_key (Github ''a'' ''b-c'')) = ''github-a-b-c''
   \<and> getGithubInfo repos_env (Str ''https://github.com/a-b/c'') empty_state
       = (Inr (Obj [(''stars'', Undef), (''description'', Str ''a-b/c''), (''title'', Undef),
                    (''url'', Undef)]),
          \<lparr>store = (\<lambda>k. None),
           pending = [(''github-a-b-c'',
                       \<lparr>data = Some (Obj [(''description'', Str ''a-b/c'')]),
                        key = ''github-a-b-c''\<rparr>)],
           trace = [CacheGet ''github-a-b-c'', Remote ''github'' ''a-b/c'',
                    CacheSet ''github-a-b-c'']\<rparr>)
   \<and> fst (getGithubInfo repos_env (Str ''https://github.com/a/b-c'')
            (settle_writes repos_env
              (snd (getGithubInfo repos_env (Str ''https://github.com/a-b/c'') empty_state))))
       = Inr (Obj [(''description'', Str ''a-b/c'')])
   \<and> trace (snd (getGithubInfo repos_env (Str ''https://github.com/a/b-c'')
            (settle_writes repos_env
              (snd (getGithubInfo repos_env (Str ''https://github.com/a-b/c'') empty_state)))))
       = [CacheGet ''github-a-b-c'', Remote ''github'' ''a-b/c'', CacheSet ''github-a-b-c'',
          CacheGet ''github-a-b-c'']
   \<and> fst (getGithubInfo repos_env (Str ''https://github.com/a/b-c'') empty_state)
       = Inr (Obj [(''stars'', Undef), (''description'', Str ''a/b-c''), (''title'', Undef),
                   (''url'', Undef)])"
proof -
  have k: "normalize_key ''github-a-b-c'' = ''github-a-b-c''" by (simp add: normalize_key_def)
  have first: "getGithubInfo repos_env (Str ''https://github.com/a-b/c'') empty_state
       = (Inr (Obj [(''stars'', Undef), (''description'', Str ''a-b/c''), (''title'', Undef),
                    (''url'', Undef)]),
          \<lparr>store = (\<lambda>k. None),
           pending = [(''github-a-b-c'',
                       \<lparr>data = Some (Obj [(''description'', Str ''a-b/c'')]),
                        key = ''github-a-b-c''\<rparr>)],
           trace = [CacheGet ''github-a-b-c'', Remote ''github'' ''a-b/c'',
                    CacheSet ''github-a-b-c'']\<rparr>)"
    by (simp add: getGithubInfo_def github_exec_two_repositories getData_def k cache_get_def
        cached_value_def cache_set_def emit_def empty_state_def repos_env_def offline_env_def
        github_producer_def github_record_def read_prop_def get_prop_def JSON_stringify_def
        Let_def)
  have settled: "settle_writes repos_env
       \<lparr>store = (\<lambda>k. None),
        pending = [(''github-a-b-c'',
                    \<lparr>data = Some (Obj [(''description'', Str ''a-b/c'')]),
                     key = ''github-a-b-c''\<rparr>)],
        trace = [CacheGet ''github-a-b-c'', Remote ''github'' ''a-b/c'',
                 CacheSet ''github-a-b-c'']\<rparr>
     = \<lparr>store = (\<lambda>k. None)(''github-a-b-c'' \<mapsto>
                  \<lparr>data = Some (Obj [(''description'', Str ''a-b/c'')]),
                   key = ''github-a-b-c''\<rparr>),
        pending = [],
        trace = [CacheGet ''github-a-b-c'', Remote ''github'' ''a-b/c'',
                 CacheSet ''github-a-b-c'']\<rparr>"
    by (simp add: settle_writes_def repos_env_def offline_env_def)
  have second: "getGithubInfo repos_env (Str ''https://github.com/a/b-c'')
       \<lparr>store = (\<lambda>k. None)(''github-a-b-c'' \<mapsto>
                  \<lparr>data = Some (Obj [(''description'', Str ''a-b/c'')]),
                   key = ''github-a-b-c''\<rparr>),
        pending = [],
        trace = [CacheGet ''github-a-b-c'', Remote ''github'' ''a-b/c'',
                 CacheSet ''github-a-b-c'']\<rparr>
     = (Inr (Obj [(''description'', Str ''a-b/c'')]),
        \<lparr>store = (\<lambda>k. None)(''github-a-b-c'' \<mapsto>
                  \<lparr>data = Some (Obj [(''description'', Str ''a-b/c'')]),
                   key = ''github-a-b-c''\<rparr>),
         pending = [],
         trace = [CacheGet ''github-a-b-c'', Remote ''github'' ''a-b/c'',
                  CacheSet ''github-a-b-c'', CacheGet ''github-a-b-c'']\<rparr>)"
    by (simp add: getGithubInfo_def github_exec_two_repositories getData_def k cache_get_def
        cached_value_def emit_def repos_env_def offline_env_def JSON_parse_def Let_def)
  have alone: "fst (getGithubInfo repos_env (Str ''https://github.com/a/b-c'') empty_state)
       = Inr (Obj [(''stars'', Undef), (''description'', Str ''a/b-c''), (''title'', Undef),
                   (''url'', Undef)])"
    by (simp add: getGithubInfo_def github_exec_two_repositories getData_def k cache_get_def
        cached_value_def cache_set_def emit_def empty_state_def repos_env_def offline_env_def
        github_producer_def github_record_def read_prop_def get_prop_def JSON_stringify_def
        Let_def)
  have r: "realistic (Github ''a-b'' ''c'')" "realistic (Github ''a'' ''b-c'')"
    by (simp_all add: repo_name_char_def is_lower_def is_upper_def is_digit_def)
  show ?thesis
    unfolding first snd_conv settled second
    using r alone by (simp add: k)
qed

subsection \<open>The entry point and the batch scheduler\<close>

lemma first_digit_eoi: "first_digit ''Unexpected end of JSON input'' = None"
  by (simp add: first_digit_def is_digit_def)

text \<open>
  Claim C5. A malformed catalog text is to give a warning with the message, the id and an
  integer position, and the result \<^verbatim>\<open>null\<close>. For the truncated text \<^verbatim>\<open>[\<close> the message
  of the parse error is \<^verbatim>\<open>Unexpected end of JSON input\<close>, which has no digit: the
  \<^verbatim>\<open>catch\<close> block itself throws a TypeError, no warning is emitted and the transform
  rejects. The lemma after the theorem covers the messages that do have a digit.
\<close>

theorem transform_truncated_json_rejects:
  "transform offline_env ''['' ''src/pages/components/components.json'' empty_state
     = (Inl TypeError, empty_state)"
  by (simp add: transform_def offline_env_def catch_parse_error_def first_digit_eoi)

lemma catch_parse_error_digit:
  assumes "first_digit errMessage = Some position"
  shows "catch_parse_error errMessage id' s
     = (Inr None, emit (Warn ''Could not parse JSON file'' id' position) s)"
    and "position \<le> 9"
proof -
  show "catch_parse_error errMessage id' s
     = (Inr None, emit (Warn ''Could not parse JSON file'' id' position) s)"
    using assms by (simp add: catch_parse_error_def)
  from assms obtain c cs where c: "filter is_digit errMessage = c # cs" "position = of_char c - 48"
    by (auto simp: first_digit_def split: list.splits)
  then have "c \<in> set (filter is_digit errMessage)" by simp
  then have "is_digit c" by simp
  with c(2) show "position \<le> 9" unfolding is_digit_def by linarith
qed

lemma transform_parse_error:
  assumes "suffix ''src/pages/components/components.json'' id'" and "filter_id E id'"
    and "parse_catalog E json = Inl errMessage"
  shows "transform E json id' s =
     (case first_digit errMessage of
        None \<Rightarrow> (Inl TypeError, s)
      | Some position \<Rightarrow> (Inr None, emit (Warn ''Could not parse JSON file'' id' position) s))"
  using assms by (simp add: transform_def catch_parse_error_def)

lemma transform_other_file:
  "\<not> suffix ''src/pages/components/components.json'' id' \<or> \<not> filter_id E id' \<Longrightarrow>
   transform E json id' s = (Inr None, s)"
  by (auto simp: transform_def)

lemma first_digit_position: "first_digit ''Unexpected token } in JSON at position 142'' = Some 1"
  by (simp add: first_digit_def is_digit_def)

lemma updateItem_titled:
  "updateItem E (titled t) s = (Inr (Obj [(''title'', Str t), (''tags'', Arr [])]), s)"
  by (simp add: updateItem_def titled_def then_do_def lift_err_def Object_keys_def merge_with_def
      repo_or_url_def read_chain_def get_prop_def js_or_def getGithubInfo_def getGitlabInfo_def
      merge_def merge_proto_def merge_object_def Object_assign_def assign_def
      github_empty_def gitlab_empty_def Object_entries_def merge_step_def has_key_def)

lemma updateItem_short_path:
  "updateItem E short_path_item s = (Inl TypeError, s)"
  by (simp add: updateItem_def short_path_item_def then_do_def lift_err_def Object_keys_def
      merge_with_def repo_or_url_def read_chain_def has_key_def get_prop_def js_or_def
      getGithubInfo_def github_exec_def strip_prefix_def two_segments_def)

lemma batch_loop_length: "length (fst (batch_loop E i parsed s)) = length parsed"
proof (induction E i parsed s rule: batch_loop.induct)
  case (1 E i parsed s)
  show ?case
  proof (cases "i < (length parsed + (chunkSize - 1)) div chunkSize")
    case True
    obtain parsed' s' where r: "batch_round E i parsed s = (parsed', s')"
      by (cases "batch_round E i parsed s")
    from "1.IH"[OF True r[symmetric]] have "length (fst (batch_loop E (i + 1) parsed' s')) = length parsed'" .
    moreover have "length parsed' = length parsed" using length_batch_round[of E i parsed s] r by simp
    ultimately show ?thesis using True r by (subst batch_loop.simps) simp
  next
    case False
    then show ?thesis by (subst batch_loop.simps) simp
  qed
qed

lemma batch_round_catalog12_first:
  "batch_round E 0 catalog12 s =
     ([enriched ''a'', enriched ''b'', enriched ''c'', Undef, enriched ''e'', enriched ''f'',
       enriched ''g'', enriched ''h'', enriched ''i'', enriched ''j'', titled ''k'', titled ''l''],
      emit (Progress 10 12) (after_batch E 0 s))"
  by (simp add: batch_round_def catalog12_def chunkSize_def updateItem_titled
      updateItem_short_path splice_def writeProgress_def enriched_def emit_def Let_def)

lemma batch_round_catalog12_second:
  "batch_round E (Suc 0)
     [enriched ''a'', enriched ''b'', enriched ''c'', Undef, enriched ''e'', enriched ''f'',
      enriched ''g'', enriched ''h'', enriched ''i'', enriched ''j'', titled ''k'', titled ''l''] s =
     ([enriched ''a'', enriched ''b'', enriched ''c'', Undef, enriched ''e'', enriched ''f'',
       enriched ''g'', enriched ''h'', enriched ''i'', enriched ''j'', enriched ''k'',
       enriched ''l''],
      emit (Progress 12 12) (after_batch E (Suc 0) s))"
  by (simp add: batch_round_def chunkSize_def updateItem_titled splice_def writeProgress_def
      enriched_def emit_def Let_def)

lemma batch_loop_catalog12:
  "batch_loop E 0 catalog12 s =
     ([enriched ''a'', enriched ''b'', enriched ''c'', Undef, enriched ''e'', enriched ''f'',
       enriched ''g'', enriched ''h'', enriched ''i'', enriched ''j'', enriched ''k'',
       enriched ''l''],
      emit (Progress 12 12)
        (after_batch E (Suc 0) (emit (Progress 10 12) (after_batch E 0 s))))"
proof -
  have l: "length catalog12 = 12" by (simp add: catalog12_def)
  show ?thesis
    apply (subst batch_loop.simps)
    apply (simp add: l chunkSize_def batch_round_catalog12_first)
    apply (subst batch_loop.simps)
    apply (simp add: chunkSize_def batch_round_catalog12_second)
    apply (subst batch_loop.simps)
    apply (simp add: chunkSize_def)
    done
qed

text \<open>
  Claim C2. In a batch of ten items of which one task fails, the batch is to keep its ten
  items in place, the failed item unchanged or enriched with absent-filled fields, and the
  later batches are to be processed. The task of the fourth item of \<open>catalog12\<close> rejects;
  the loop keeps the length and the places and goes on to the second batch, but the
  fourth slot holds \<^verbatim>\<open>undefined\<close> afterwards, neither the item nor an enriched record.
\<close>

theorem rejected_task_leaves_undefined:
  "fst (updateItem E (catalog12 ! 3) s) = Inl TypeError
   \<and> fst (batch_loop E 0 catalog12 s) =
       [enriched ''a'', enriched ''b'', enriched ''c'', Undef, enriched ''e'', enriched ''f'',
        enriched ''g'', enriched ''h'', enriched ''i'', enriched ''j'', enriched ''k'',
        enriched ''l'']
   \<and> fst (batch_loop E 0 catalog12 s) ! 3 \<noteq> catalog12 ! 3
   \<and> fst (batch_loop E 0 catalog12 s) ! 3 \<noteq> enriched ''d''"
proof -
  have i: "catalog12 ! 3 = short_path_item" by (simp add: catalog12_def)
  have u: "fst (updateItem E (catalog12 ! 3) s) = Inl TypeError"
    unfolding i by (simp add: updateItem_short_path)
  have n: "Undef \<noteq> short_path_item" "Undef \<noteq> enriched ''d''"
    by (simp_all add: short_path_item_def enriched_def)
  show ?thesis using u n by (simp add: batch_loop_catalog12 i)
qed

text \<open>The entry point hands the catalog on with \<^verbatim>\<open>null\<close> in the place of the fourth
  item.\<close>

lemma transform_catalog12:
  "transform catalog_env json ''src/pages/components/components.json'' empty_state =
     (Inr (Some (Arr [enriched ''a'', enriched ''b'', enriched ''c'', Null, enriched ''e'',
                      enriched ''f'', enriched ''g'', enriched ''h'', enriched ''i'',
                      enriched ''j'', enriched ''k'', enriched ''l''])),
      \<lparr>store = (\<lambda>k. None), pending = [], trace = [Progress 10 12, Progress 12 12]\<rparr>)"
  by (simp add: transform_def catalog_env_def offline_env_def batch_loop_catalog12
      JSON_stringify_def enriched_def after_batch_def settle_writes_def emit_def empty_state_def)

subsection \<open>Merge leaves its arguments alone\<close>

lemma cell_at_append: "a < length h \<Longrightarrow> cell_at (h @ new) a = cell_at h a"
  by (simp add: cell_at_def nth_append)

lemma cell_at_update: "a \<noteq> nd \<Longrightarrow> cell_at (h[nd := c]) a = cell_at h a"
  by (simp add: cell_at_def)

lemma h_merge_step_frame:
  assumes "h_merge_step h nd setter ky val = (r, b, h')" and "a < length h" and "a \<noteq> nd"
  shows "cell_at h' a = cell_at h a \<and> length h \<le> length h'"
proof -
  have app: "cell_at ((h @ new)[nd := c]) a = cell_at h a" for new c
    using assms(2,3) by (simp add: cell_at_update cell_at_append)
  show ?thesis
    using assms app
    by (auto simp: h_merge_step_def h_assign_def alloc_def cell_at_update
        split: if_splits sum.splits)
qed

lemma h_merge_entries_frame:
  assumes "h_merge_entries h nd setter es = (r, b, h')" and "a < length h" and "a \<noteq> nd"
  shows "cell_at h' a = cell_at h a \<and> length h \<le> length h'"
  using assms
proof (induction es arbitrary: h setter)
  case Nil
  then show ?case by simp
next
  case (Cons e es)
  obtain k v where e: "e = (k, v)" by (cases e)
  obtain r1 b1 h1 where s: "h_merge_step h nd setter k v = (r1, b1, h1)"
    by (cases "h_merge_step h nd setter k v")
  from h_merge_step_frame[OF s Cons.prems(2,3)]
  have f1: "cell_at h1 a = cell_at h a" "length h \<le> length h1" by auto
  show ?case
  proof (cases r1)
    case None
    with Cons.prems(1) e s have "h_merge_entries h1 nd b1 es = (r, b, h')" by simp
    from Cons.IH[OF this] f1 Cons.prems(2,3) show ?thesis by auto
  next
    case (Some err)
    with Cons.prems(1) e s have "h' = h1" by simp
    with f1 show ?thesis by simp
  qed
qed

text \<open>
  Claim C10. \<^verbatim>\<open>merge\<close> leaves its arguments unchanged: every cell that is in the store
  before the call, so every object and array reachable from \<open>base\<close> or \<open>additional\<close>, is
  the same after the call, whether the call returns or throws. The merged record is a new
  cell, and combined tags are a new array cell.
\<close>

theorem h_merge_frame:
  assumes "a < length h"
  shows "cell_at (snd (h_merge h base additional)) a = cell_at h a"
proof -
  let ?h1 = "h @ [ObjCell (filter (\<lambda>kv. fst kv \<noteq> ''__proto__'') (h_own_entries h base))]"
  let ?b1 = "case map_of (h_own_entries h base) ''__proto__'' of
               None \<Rightarrow> True | Some v \<Rightarrow> h_setter_after h True v"
  have a1: "a < length ?h1" "a \<noteq> length h" using assms by simp_all
  have c1: "cell_at ?h1 a = cell_at h a" using assms by (rule cell_at_append)
  show ?thesis
  proof (cases "h_Object_entries ?h1 additional")
    case (Inl e)
    then show ?thesis using c1 by (simp add: h_merge_def h_Object_assign_def alloc_def)
  next
    case (Inr es)
    obtain r b h2 where m: "h_merge_entries ?h1 (length h) ?b1 es = (r, b, h2)"
      by (cases "h_merge_entries ?h1 (length h) ?b1 es")
    from h_merge_entries_frame[OF m a1] c1 have "cell_at h2 a = cell_at h a" by simp
    then show ?thesis
      using Inr m by (cases r) (simp_all add: h_merge_def h_Object_assign_def alloc_def)
  qed
qed

text \<open>The tag example on the store: the result is a new object whose tags are a new
  array.\<close>

lemma h_merge_tags_store:
  "h_merge tags_store (Ref 0) (Ref 2) =
     (Inr (Ref 4), tags_store @ [ObjCell [(''tags'', Ref 5)], ArrCell [RStr ''ui'', RStr ''framework'']])"
  by (simp add: h_merge_def h_Object_assign_def alloc_def tags_store_def cell_at_def
      h_Object_entries_def h_merge_step_def fields_at_def has_key_def h_get_prop_def
      h_spread_or_empty_def)

theorem h_merge_frame_witness:
  "cell_at (snd (h_merge tags_store (Ref 0) (Ref 2))) 0 = Some (ObjCell [(''tags'', Ref 1)])
   \<and> cell_at (snd (h_merge tags_store (Ref 0) (Ref 2))) 1 = Some (ArrCell [RStr ''ui'', RStr ''svelte-icons''])
   \<and> cell_at (snd (h_merge tags_store (Ref 0) (Ref 2))) 2 = Some (ObjCell [(''tags'', Ref 3)])
   \<and> cell_at (snd (h_merge tags_store (Ref 0) (Ref 2))) 3 = Some (ArrCell [RStr ''framework'', RStr ''svelte''])"
proof -
  have l: "0 < length tags_store" "1 < length tags_store" "2 < length tags_store" "3 < length tags_store"
    by (simp_all add: tags_store_def)
  have c: "cell_at tags_store 0 = Some (ObjCell [(''tags'', Ref 1)])"
    "cell_at tags_store 1 = Some (ArrCell [RStr ''ui'', RStr ''svelte-icons''])"
    "cell_at tags_store 2 = Some (ObjCell [(''tags'', Ref 3)])"
    "cell_at tags_store 3 = Some (ArrCell [RStr ''framework'', RStr ''svelte''])"
    by (simp_all add: tags_store_def cell_at_def)
  show ?thesis
    using h_merge_frame[OF l(1), of "Ref 0" "Ref 2"] h_merge_frame[OF l(2), of "Ref 0" "Ref 2"]
      h_merge_frame[OF l(3), of "Ref 0" "Ref 2"] h_merge_frame[OF l(4), of "Ref 0" "Ref 2"] c
    by simp
qed

subsection \<open>The two models of merge agree\<close>

lemma denotes_lift:
  assumes "denotes X h v j" and "X \<subseteq> Y" and "\<And>a. a \<in> X \<Longrightarrow> cell_at h' a = cell_at h a"
  shows "denotes Y h' v j"
  using assms(1)
proof (induction rule: denotes.induct)
  case (d_arr a xs js)
  have "list_all2 (denotes Y h') xs js"
    using d_arr.IH by (rule list_all2_mono) simp
  moreover have "a \<in> Y" "cell_at h' a = Some (ArrCell xs)"
    using d_arr.hyps assms(2,3) by auto
  ultimately show ?case by (rule denotes.d_arr[rotated 2])
next
  case (d_obj a fs gs)
  have "list_all2 (\<lambda>kv kj. fst kv = fst kj \<and> denotes Y h' (snd kv) (snd kj)) fs gs"
    using d_obj.IH by (rule list_all2_mono) simp
  moreover have "a \<in> Y" "cell_at h' a = Some (ObjCell fs)"
    using d_obj.hyps assms(2,3) by auto
  ultimately show ?case by (rule denotes.d_obj[rotated 2])
qed (auto intro: denotes.intros)

lemma denotes_str_right: "denotes X h v (Str s) \<longleftrightarrow> v = RStr s"
  by (auto elim: denotes.cases intro: denotes.intros)

lemma denotes_str_left: "denotes X h (RStr s) j \<longleftrightarrow> j = Str s"
  by (auto elim: denotes.cases intro: denotes.intros)

lemma truthy_rel: "denotes X h v j \<Longrightarrow> h_truthy v = truthy j"
  by (erule denotes.cases) simp_all

lemma skip_rel:
  "denotes X h v j \<Longrightarrow>
   (v = RUndef \<or> v = RNull \<or> v = RStr []) = (j = Undef \<or> j = Null \<or> j = Str [])"
  by (erule denotes.cases) simp_all

lemma is_array_rel: "denotes X h v j \<Longrightarrow> h_is_array h v = is_Arr j"
  by (erule denotes.cases) simp_all

lemma chars_rel: "list_all2 (denotes X h) (map (\<lambda>c. RStr [c]) s) (map (\<lambda>c. Str [c]) s)"
  by (induction s) (auto intro: denotes.intros)

lemma spread_rel:
  "denotes X h v j \<Longrightarrow> rel_sum (=) (list_all2 (denotes X h)) (h_spread h v) (spread j)"
  by (erule denotes.cases) (simp_all add: chars_rel)

lemma mem_svelte_rel:
  "list_all2 (denotes X h) xs js \<Longrightarrow> (RStr s \<in> set xs) = (Str s \<in> set js)"
  by (induction rule: list_all2_induct) (auto simp: denotes_str_right denotes_str_left)

lemma includes_rel: "denotes X h v j \<Longrightarrow> h_includes_svelte h v = includes_svelte j"
  by (erule denotes.cases) (simp_all add: mem_svelte_rel)

lemma filter_rel:
  "list_all2 (denotes X h) ts tj \<Longrightarrow>
   rel_sum (=) (list_all2 (denotes X h)) (h_filter_tags h ts) (filter_tags tj)"
proof (induction rule: list_all2_induct)
  case Nil
  then show ?case by simp
next
  case (Cons t ts j tj)
  from includes_rel[OF Cons.hyps(1)] have i: "h_includes_svelte h t = includes_svelte j" .
  show ?case
  proof (cases "includes_svelte j")
    case (Inl e)
    with i show ?thesis by simp
  next
    case (Inr b)
    with i Cons.IH Cons.hyps(1) show ?thesis
      by (cases "h_filter_tags h ts"; cases "filter_tags tj") auto
  qed
qed

lemma get_prop_rel:
  "fields_rel X h fs gs \<Longrightarrow> denotes X h (h_get_prop fs k) (get_prop gs k)"
  unfolding fields_rel_def
proof (induction rule: list_all2_induct)
  case Nil
  then show ?case by (simp add: h_get_prop_def get_prop_def denotes.intros)
next
  case (Cons kv fs kj gs)
  then show ?case by (cases kv; cases kj) (auto simp: h_get_prop_def get_prop_def)
qed

lemma has_key_rel: "fields_rel X h fs gs \<Longrightarrow> has_key fs k = has_key gs k"
  unfolding fields_rel_def
  by (induction rule: list_all2_induct) (auto simp: has_key_def)

lemma set_prop_rel:
  "fields_rel X h fs gs \<Longrightarrow> denotes X h v j \<Longrightarrow>
   fields_rel X h (set_prop fs k v) (set_prop gs k j)"
  unfolding fields_rel_def
proof (induction rule: list_all2_induct)
  case Nil
  then show ?case by simp
next
  case (Cons kv fs kj gs)
  then show ?case by (cases kv; cases kj) auto
qed

lemma fields_rel_lift:
  assumes "fields_rel X h fs gs" and "X \<subseteq> Y" and "\<And>a. a \<in> X \<Longrightarrow> cell_at h' a = cell_at h a"
  shows "fields_rel Y h' fs gs"
  using assms(1) unfolding fields_rel_def
  by (rule list_all2_mono) (auto intro: denotes_lift[OF _ assms(2,3)])

lemma indexed_rel:
  "list_all2 (denotes X h) xs js \<Longrightarrow>
   fields_rel X h (zip (map dec_nat [0..<length xs]) xs) (zip (map dec_nat [0..<length js]) js)"
proof -
  assume a: "list_all2 (denotes X h) xs js"
  then have l: "length xs = length js" by (rule list_all2_lengthD)
  show ?thesis
    unfolding fields_rel_def
    by (rule list_all2_all_nthI) (use a l in \<open>auto simp: list_all2_nthD\<close>)
qed

lemma entries_rel:
  "denotes X h v j \<Longrightarrow> fields_rel X h (h_own_entries h v) (own_entries j)"
proof (erule denotes.cases)
  fix a xs js
  assume "v = Ref a" "j = Arr js" "cell_at h a = Some (ArrCell xs)" "list_all2 (denotes X h) xs js"
  then show ?thesis using indexed_rel[of X h xs js] by simp
next
  fix a fs gs
  assume "v = Ref a" "j = Obj gs" "cell_at h a = Some (ObjCell fs)"
    "list_all2 (\<lambda>kv kj. fst kv = fst kj \<and> denotes X h (snd kv) (snd kj)) fs gs"
  then show ?thesis by (simp add: fields_rel_def)
next
  fix s
  assume "v = RStr s" "j = Str s"
  then show ?thesis using indexed_rel[OF chars_rel, of X h s] by simp
qed (simp_all add: fields_rel_def)

lemma cell_at_Some_less: "cell_at h a = Some c \<Longrightarrow> a < length h"
  by (simp add: cell_at_def split: if_splits)

lemma setter_rel:
  "denotes X h v j \<Longrightarrow>
   h_setter_after h (setter_reachable p) v = setter_reachable (set_prototype p j)"
proof (erule denotes.cases)
  fix a fs gs
  assume "v = Ref a" "j = Obj gs" "cell_at h a = Some (ObjCell fs)"
    "list_all2 (\<lambda>kv kj. fst kv = fst kj \<and> denotes X h (snd kv) (snd kj)) fs gs"
  then show ?thesis using has_key_rel[of X h fs gs "''__proto__''"] by (simp add: fields_rel_def)
qed simp_all

lemma map_of_rel:
  "fields_rel X h fs gs \<Longrightarrow> rel_option (denotes X h) (map_of fs k) (map_of gs k)"
  unfolding fields_rel_def
proof (induction rule: list_all2_induct)
  case Nil
  then show ?case by simp
next
  case (Cons kv fs kj gs)
  then show ?case by (cases kv; cases kj) auto
qed

lemma without_rel:
  "fields_rel X h fs gs \<Longrightarrow>
   fields_rel X h (filter (\<lambda>kv. fst kv \<noteq> k) fs) (filter (\<lambda>kv. fst kv \<noteq> k) gs)"
  unfolding fields_rel_def
  by (induction rule: list_all2_induct) auto

lemma h_merge_step_refines:
  assumes nd: "cell_at h nd = Some (ObjCell fs)"
    and F: "fields_rel (live h nd) h fs ndp"
    and V: "denotes (live h nd) h v j"
  shows "step_ok h nd (h_merge_step h nd (setter_reachable p) k v) (merge_step (p, ndp) k j)"
proof -
  let ?b = "setter_reachable p"
  have ndl: "nd < length h" using nd by (rule cell_at_Some_less)
  have fa: "fields_at h nd = fs" using nd by (simp add: fields_at_def)
  note sk = skip_rel[OF V]
  note hk = has_key_rel[OF F, of k]
  show ?thesis
  proof (cases "v = RUndef \<or> v = RNull \<or> v = RStr []")
    case True
    then have "j = Undef \<or> j = Null \<or> j = Str []" using sk by simp
    with True nd F show ?thesis
      by (auto simp: step_ok_def h_merge_step_def merge_step_def)
  next
    case False
    then have nj: "\<not> (j = Undef \<or> j = Null \<or> j = Str [])" using sk by simp
    show ?thesis
    proof (cases "has_key fs k")
      case nokey: False
      have hs: "h_merge_step h nd ?b k v = (None, h_assign h nd ?b k v)"
        using False nokey fa by (simp add: h_merge_step_def)
      have ps: "merge_step (p, ndp) k j = Inr (assign (p, ndp) k j)"
        using nj nokey hk by (simp add: merge_step_def)
      show ?thesis
      proof (cases "k = ''__proto__'' \<and> ?b")
        case True
        have ha: "h_assign h nd ?b k v = (h_setter_after h ?b v, h)"
          using True nokey fa by (simp add: h_assign_def)
        have pa: "assign (p, ndp) k j = (set_prototype p j, ndp)"
          using True nokey hk by (simp add: assign_def)
        show ?thesis
          unfolding hs ps ha pa using nd F setter_rel[OF V, of p] by (simp add: step_ok_def)
      next
        case ord: False
        let ?h' = "h[nd := ObjCell (set_prop fs k v)]"
        have ha: "h_assign h nd ?b k v = (?b, ?h')"
          using ord fa by (auto simp: h_assign_def)
        have pa: "assign (p, ndp) k j = (p, set_prop ndp k j)"
          using ord by (auto simp: assign_def)
        have keep: "cell_at ?h' a = cell_at h a" if "a \<in> live h nd" for a
          using that by (simp add: live_def cell_at_def)
        have lv: "live ?h' nd = live h nd" by (simp add: live_def)
        have "fields_rel (live h nd) h (set_prop fs k v) (set_prop ndp k j)"
          by (rule set_prop_rel[OF F V])
        then have "fields_rel (live ?h' nd) ?h' (set_prop fs k v) (set_prop ndp k j)"
          unfolding lv by (rule fields_rel_lift) (simp_all add: keep)
        moreover have "cell_at ?h' nd = Some (ObjCell (set_prop fs k v))"
          using ndl by (simp add: cell_at_def)
        ultimately show ?thesis
          unfolding hs ps ha pa using keep by (simp add: step_ok_def)
      qed
    next
      case haskey: True
      show ?thesis
      proof (cases "k = ''tags'' \<and> h_is_array h v")
        case nt: False
        then have "\<not> (k = ''tags'' \<and> is_Arr j)" using is_array_rel[OF V] by simp
        with nt False nj haskey hk fa nd F show ?thesis
          by (auto simp: step_ok_def h_merge_step_def merge_step_def)
      next
        case tg: True
        then have tj: "k = ''tags''" "is_Arr j" using is_array_rel[OF V] by simp_all
        let ?t = "h_get_prop fs ''tags''" and ?tp = "get_prop ndp ''tags''"
        have T: "denotes (live h nd) h ?t ?tp" by (rule get_prop_rel[OF F])
        let ?old = "h_spread_or_empty h ?t"
        have O: "rel_sum (=) (list_all2 (denotes (live h nd) h)) ?old (spread (js_or ?tp (Arr [])))"
          using truthy_rel[OF T] spread_rel[OF T] by (simp add: js_or_def h_spread_or_empty_def)
        have N: "rel_sum (=) (list_all2 (denotes (live h nd) h)) (h_spread h v) (Inr (elems j))"
          using spread_rel[OF V] tj(2) by (cases j) simp_all
        show ?thesis
        proof (cases ?old)
          case (Inl e)
          with O have "spread (js_or ?tp (Arr [])) = Inl e"
            by (cases "spread (js_or ?tp (Arr []))") simp_all
          with Inl False nj haskey hk fa tg tj show ?thesis
            by (simp add: step_ok_def h_merge_step_def merge_step_def)
        next
          case (Inr old)
          with O obtain oldp where op: "spread (js_or ?tp (Arr [])) = Inr oldp"
            "list_all2 (denotes (live h nd) h) old oldp"
            by (cases "spread (js_or ?tp (Arr []))") simp_all
          from N obtain new where nw: "h_spread h v = Inr new"
            "list_all2 (denotes (live h nd) h) new (elems j)"
            by (cases "h_spread h v") simp_all
          have A: "list_all2 (denotes (live h nd) h) (old @ new) (oldp @ elems j)"
            using op(2) nw(2) by (rule list_all2_appendI)
          note FR = filter_rel[OF A]
          show ?thesis
          proof (cases "h_filter_tags h (old @ new)")
            case (Inl e)
            with FR have "filter_tags (oldp @ elems j) = Inl e"
              by (cases "filter_tags (oldp @ elems j)") simp_all
            with Inl Inr op nw False nj haskey hk fa tg tj show ?thesis
              by (simp add: step_ok_def h_merge_step_def merge_step_def)
          next
            case ts: (Inr ts)
            with FR obtain tsp where tp: "filter_tags (oldp @ elems j) = Inr tsp"
              "list_all2 (denotes (live h nd) h) ts tsp"
              by (cases "filter_tags (oldp @ elems j)") simp_all
            let ?h1 = "h @ [ArrCell ts]"
            let ?h' = "?h1[nd := ObjCell (set_prop fs ''tags'' (Ref (length h)))]"
            have keep: "cell_at ?h' a = cell_at h a" if "a \<in> live h nd" for a
              using that by (simp add: live_def cell_at_def nth_append)
            have sub: "live h nd \<subseteq> live ?h' nd" by (auto simp: live_def)
            have F': "fields_rel (live ?h' nd) ?h' fs ndp"
              using F sub by (rule fields_rel_lift) (simp add: keep)
            have "list_all2 (denotes (live ?h' nd) ?h') ts tsp"
              using tp(2) by (rule list_all2_mono) (auto intro: denotes_lift[OF _ sub] simp: keep)
            moreover have "length h \<in> live ?h' nd" using ndl by (simp add: live_def)
            moreover have "cell_at ?h' (length h) = Some (ArrCell ts)"
              using ndl by (simp add: cell_at_def nth_append)
            ultimately have D: "denotes (live ?h' nd) ?h' (Ref (length h)) (Arr tsp)"
              by (intro denotes.d_arr)
            have R: "fields_rel (live ?h' nd) ?h' (set_prop fs ''tags'' (Ref (length h)))
                       (set_prop ndp ''tags'' (Arr tsp))"
              by (rule set_prop_rel[OF F' D])
            have c: "cell_at ?h' nd = Some (ObjCell (set_prop fs ''tags'' (Ref (length h))))"
              using ndl by (simp add: cell_at_def)
            have fa1: "fields_at ?h1 nd = fs"
              using nd ndl by (simp add: fields_at_def cell_at_def nth_append)
            have hs: "h_merge_step h nd ?b k v = (None, ?b, ?h')"
              using ts Inr nw False haskey fa fa1 tg
              by (simp add: h_merge_step_def alloc_def)
            have ps: "merge_step (p, ndp) k j = Inr (p, set_prop ndp ''tags'' (Arr tsp))"
              using nj haskey hk tj op tp by (simp add: merge_step_def)
            show ?thesis
              unfolding hs ps using R c keep by (simp add: step_ok_def)
          qed
        qed
      qed
    qed
  qed
qed

lemma h_merge_entries_refines:
  assumes "cell_at h nd = Some (ObjCell fs)"
    and "fields_rel (live h nd) h fs ndp"
    and "fields_rel (live h nd) h es esp"
  shows "step_ok h nd (h_merge_entries h nd (setter_reachable p) es) (merge_entries (p, ndp) esp)"
  using assms
proof (induction es arbitrary: h fs p ndp esp)
  case Nil
  then have "esp = []" by (simp add: fields_rel_def)
  with Nil show ?case by (auto simp: step_ok_def)
next
  case (Cons e es)
  obtain k v where e: "e = (k, v)" by (cases e)
  from Cons.prems(3) e obtain j esp' where esp: "esp = (k, j) # esp'"
    and V: "denotes (live h nd) h v j" and R: "fields_rel (live h nd) h es esp'"
    by (cases esp) (auto simp: fields_rel_def)
  obtain r b1 h1 where s: "h_merge_step h nd (setter_reachable p) k v = (r, b1, h1)"
    by (cases "h_merge_step h nd (setter_reachable p) k v")
  from h_merge_step_refines[OF Cons.prems(1,2) V, of p k] s
  have ok: "step_ok h nd (r, b1, h1) (merge_step (p, ndp) k j)" by simp
  then have len: "length h \<le> length h1"
    and keep: "\<And>a. a \<in> live h nd \<Longrightarrow> cell_at h1 a = cell_at h a"
    by (simp_all add: step_ok_def)
  show ?case
  proof (cases r)
    case (Some err)
    with ok have "merge_step (p, ndp) k j = Inl err" by (simp add: step_ok_def)
    with Some s e esp len keep show ?thesis by (simp add: step_ok_def)
  next
    case None
    with ok obtain fs' p' ndp' where pm: "merge_step (p, ndp) k j = Inr (p', ndp')"
      and c: "cell_at h1 nd = Some (ObjCell fs')"
      and F': "fields_rel (live h1 nd) h1 fs' ndp'"
      and b1: "b1 = setter_reachable p'"
      by (auto simp: step_ok_def)
    have sub: "live h nd \<subseteq> live h1 nd" using len by (auto simp: live_def)
    have R': "fields_rel (live h1 nd) h1 es esp'"
      using R sub by (rule fields_rel_lift) (simp add: keep)
    from Cons.IH[OF c F' R', of p']
    have ih: "step_ok h1 nd (h_merge_entries h1 nd (setter_reachable p') es)
                (merge_entries (p', ndp') esp')" .
    obtain r2 b2 h2 where m: "h_merge_entries h1 nd (setter_reachable p') es = (r2, b2, h2)"
      by (cases "h_merge_entries h1 nd (setter_reachable p') es")
    have "step_ok h nd (r2, b2, h2) (merge_entries (p', ndp') esp')"
      using ih len keep sub unfolding m step_ok_def by (auto simp: subset_iff)
    with None s e esp pm b1 m show ?thesis by simp
  qed
qed

lemma absent_rel: "denotes X h v j \<Longrightarrow> (v = RUndef \<or> v = RNull) = (j = Undef \<or> j = Null)"
  by (erule denotes.cases) simp_all

lemma h_Object_assign_refines:
  assumes "denotes {a. a < length h} h base b"
  shows "\<exists>fs. h_Object_assign h base
             = (length h, setter_reachable (fst (Object_assign b)), h @ [ObjCell fs])
           \<and> fields_rel {a. a < length h} h fs (snd (Object_assign b))"
proof -
  have E: "fields_rel {a. a < length h} h (h_own_entries h base) (own_entries b)"
    by (rule entries_rel[OF assms])
  have S: "(case map_of (h_own_entries h base) ''__proto__'' of
              None \<Rightarrow> True | Some v \<Rightarrow> h_setter_after h True v)
           = setter_reachable (fst (Object_assign b))"
  proof (cases "map_of (own_entries b) ''__proto__''")
    case None
    with map_of_rel[OF E, of "''__proto__''"] show ?thesis
      by (cases "map_of (h_own_entries h base) ''__proto__''") (simp_all add: Object_assign_def)
  next
    case (Some j)
    with map_of_rel[OF E, of "''__proto__''"] obtain v
      where v: "map_of (h_own_entries h base) ''__proto__'' = Some v"
        and d: "denotes {a. a < length h} h v j"
      by (cases "map_of (h_own_entries h base) ''__proto__''") simp_all
    from setter_rel[OF d, of ObjectPrototype] Some v show ?thesis
      by (simp add: Object_assign_def)
  qed
  show ?thesis
    using S without_rel[OF E, of "''__proto__''"]
    by (simp add: h_Object_assign_def alloc_def Object_assign_def)
qed

text \<open>
  The merge on the store computes what the merge on values computes: on arguments that
  stand for \<open>b\<close> and \<open>ad\<close> it throws the same error, or returns a reference that stands
  for the merged record.
\<close>

lemma h_merge_refines:
  assumes "denotes {a. a < length h} h base b" and "denotes {a. a < length h} h additional ad"
  shows "case h_merge h base additional of
           (Inl e, h') \<Rightarrow> merge b ad = Inl e
         | (Inr r, h') \<Rightarrow>
             (\<exists>nd. merge b ad = Inr (Obj nd) \<and> denotes {a. a < length h'} h' r (Obj nd))"
proof -
  let ?nd = "length h"
  obtain p gs where oa: "Object_assign b = (p, gs)" by (cases "Object_assign b")
  from h_Object_assign_refines[OF assms(1)] oa obtain fs
    where ha: "h_Object_assign h base = (?nd, setter_reachable p, h @ [ObjCell fs])"
      and F0: "fields_rel {a. a < length h} h fs gs"
    by auto
  let ?h1 = "h @ [ObjCell fs]"
  have lv: "live ?h1 ?nd = {a. a < length h}" by (auto simp: live_def)
  have keep: "cell_at ?h1 a = cell_at h a" if "a \<in> {a. a < length h}" for a
    using that by (simp add: cell_at_def nth_append)
  have c: "cell_at ?h1 ?nd = Some (ObjCell fs)" by (simp add: cell_at_def)
  have F: "fields_rel (live ?h1 ?nd) ?h1 fs gs"
    unfolding lv using F0 by (rule fields_rel_lift) (simp_all add: keep)
  have D: "denotes (live ?h1 ?nd) ?h1 additional ad"
    unfolding lv using assms(2) by (rule denotes_lift) (simp_all add: keep)
  show ?thesis
  proof (cases "additional = RUndef \<or> additional = RNull")
    case True
    then have "ad = Undef \<or> ad = Null" using absent_rel[OF assms(2)] by simp
    with True show ?thesis
      by (auto simp: h_merge_def ha h_Object_entries_def merge_def merge_object_def
          Object_entries_def)
  next
    case False
    then have na: "\<not> (ad = Undef \<or> ad = Null)" using absent_rel[OF assms(2)] by simp
    let ?es = "h_own_entries ?h1 additional"
    have E: "fields_rel (live ?h1 ?nd) ?h1 ?es (own_entries ad)" by (rule entries_rel[OF D])
    obtain r b2 h2 where m: "h_merge_entries ?h1 ?nd (setter_reachable p) ?es = (r, b2, h2)"
      by (cases "h_merge_entries ?h1 ?nd (setter_reachable p) ?es")
    from h_merge_entries_refines[OF c F E, of p] m
    have ok: "step_ok ?h1 ?nd (r, b2, h2) (merge_entries (p, gs) (own_entries ad))"
      by simp
    have hm: "h_merge h base additional =
        (case r of Some e \<Rightarrow> (Inl e, h2) | None \<Rightarrow> (Inr (Ref ?nd), h2))"
      using False m by (cases r) (simp_all add: h_merge_def ha h_Object_entries_def)
    have mo: "merge_object b ad = merge_entries (p, gs) (own_entries ad)"
      using na oa by (simp add: merge_object_def Object_entries_def)
    show ?thesis
    proof (cases r)
      case (Some err)
      with ok have "merge_entries (p, gs) (own_entries ad) = Inl err"
        by (simp add: step_ok_def)
      with Some hm mo show ?thesis by (simp add: merge_def)
    next
      case None
      with ok obtain fs' p' ndp' where pm: "merge_entries (p, gs) (own_entries ad) = Inr (p', ndp')"
        and c2: "cell_at h2 ?nd = Some (ObjCell fs')"
        and F2: "fields_rel (live h2 ?nd) h2 fs' ndp'"
        by (auto simp: step_ok_def)
      have "?nd \<in> {a. a < length h2}" using c2 by (simp add: cell_at_Some_less)
      moreover have "fields_rel {a. a < length h2} h2 fs' ndp'"
        using F2 by (rule fields_rel_lift) (auto simp: live_def)
      ultimately have "denotes {a. a < length h2} h2 (Ref ?nd) (Obj ndp')"
        using c2 unfolding fields_rel_def by (intro denotes.d_obj)
      with None hm mo pm show ?thesis by (simp add: merge_def)
    qed
  qed
qed

lemma tags_store_denotes:
  "denotes {a. a < length tags_store} tags_store (Ref 0)
     (Obj [(''tags'', Arr [Str ''ui'', Str ''svelte-icons''])])"
  "denotes {a. a < length tags_store} tags_store (Ref 2)
     (Obj [(''tags'', Arr [Str ''framework'', Str ''svelte''])])"
  by (auto intro!: denotes.intros simp: tags_store_def cell_at_def)

end
